theory Spec2Isabelle
  imports Complex_Main "HOL-Library.AList"
begin

section \<open>Python values and the operations the source applies to them\<close>

text \<open>
  The proxy handles decoded JSON throughout: the lines of the upstream stream, the
  messages of a chat request and the records of the accounts file are whatever
  \<^verbatim>\<open>json.loads\<close> returned. A value of \<open>json\<close> is such a decoded
  document. Numbers are Python integers; a dictionary is an association list read with
  \<open>map_of\<close> (insertion order kept, one entry per key). Strings are lists of 8-bit
  characters.
\<close>

datatype json =
    JNull
  | JBool bool
  | JInt int
  | JStr string
  | JArr "json list"
  | JObj "(string \<times> json) list"

text \<open>The exceptions the modelled code can raise.\<close>

datatype py_error =
    AttributeError
  | TypeError
  | KeyError
  | IndexError
  | ValueError
  | RecursionError

text \<open>Python truthiness, as \<^verbatim>\<open>if x:\<close> and \<^verbatim>\<open>bool(x)\<close> decide it.\<close>

fun truthy :: "json \<Rightarrow> bool" where
  "truthy JNull = False"
| "truthy (JBool b) = b"
| "truthy (JInt n) = (n \<noteq> 0)"
| "truthy (JStr s) = (s \<noteq> [])"
| "truthy (JArr xs) = (xs \<noteq> [])"
| "truthy (JObj kvs) = (kvs \<noteq> [])"

text \<open>\<^verbatim>\<open>x.get(k, d)\<close>: only a dictionary has the method.\<close>

fun dict_get :: "json \<Rightarrow> string \<Rightarrow> json \<Rightarrow> py_error + json" where
  "dict_get (JObj kvs) k d = Inr (case map_of kvs k of Some v \<Rightarrow> v | None \<Rightarrow> d)"
| "dict_get _ k d = Inl AttributeError"

text \<open>\<^verbatim>\<open>x[k]\<close> with a string key \<open>k\<close>.\<close>

fun subscript :: "json \<Rightarrow> string \<Rightarrow> py_error + json" where
  "subscript (JObj kvs) k = (case map_of kvs k of Some v \<Rightarrow> Inr v | None \<Rightarrow> Inl KeyError)"
| "subscript _ k = Inl TypeError"

text \<open>\<^verbatim>\<open>x[0]\<close>.\<close>

fun subscript0 :: "json \<Rightarrow> py_error + json" where
  "subscript0 (JArr []) = Inl IndexError"
| "subscript0 (JArr (x # xs)) = Inr x"
| "subscript0 (JStr []) = Inl IndexError"
| "subscript0 (JStr (c # cs)) = Inr (JStr [c])"
| "subscript0 (JObj kvs) = Inl KeyError"
| "subscript0 _ = Inl TypeError"

section \<open>The stream reassembler (api_client.py)\<close>

text \<open>
  What the generator yields. \<^verbatim>\<open>{'type': 'thinking', 'content': c}\<close> is
  \<open>Thinking c\<close>, \<^verbatim>\<open>{'type': 'text', 'content': c}\<close> is \<open>Text c\<close> and
  \<^verbatim>\<open>{'type': 'tool_calls', 'tool_calls': tcs}\<close> is \<open>ToolCalls tcs\<close>.
\<close>

datatype event =
    Thinking json
  | Text json
  | ToolCalls "json list"

text \<open>The two local variables that live across lines.\<close>

record stream_state =
  thinking_started :: bool
  tool_calls :: "json list"

definition think_open :: event where
  "think_open = Thinking (JStr ''<think>\<newline>'')"

definition think_close :: event where
  "think_close = Thinking (JStr ''\<newline></think>\<newline>'')"

text \<open>
  The body of \<^verbatim>\<open>for part in parts\<close> (lines 72-91). \<open>dumps\<close> is
  \<^verbatim>\<open>json.dumps\<close>. The result is the events yielded and either the new state
  or the exception that ends the generator.
\<close>

definition process_part ::
  "(json \<Rightarrow> string) \<Rightarrow> json \<Rightarrow> stream_state \<Rightarrow> event list \<times> (py_error + stream_state)" where
  "process_part dumps part st =
     (case part of
        JObj kvs \<Rightarrow>
          if map_of kvs ''thought'' = Some (JBool True) then
            ((if thinking_started st then [] else [think_open]) @
               [Thinking (case map_of kvs ''text'' of Some t \<Rightarrow> t | None \<Rightarrow> JStr [])],
             Inr (st\<lparr>thinking_started := True\<rparr>))
          else (case map_of kvs ''text'' of
            Some t \<Rightarrow>
              ((if thinking_started st then [think_close] else []) @ [Text t],
               Inr (st\<lparr>thinking_started := False\<rparr>))
          | None \<Rightarrow>
              (case map_of kvs ''functionCall'' of
                 Some fc \<Rightarrow>
                   (case fc of
                      JObj fkvs \<Rightarrow>
                        ([], Inr (st\<lparr>tool_calls := tool_calls st @
                           [JObj [(''id'', case map_of fkvs ''id'' of Some i \<Rightarrow> i | None \<Rightarrow> JNull),
                                  (''type'', JStr ''function''),
                                  (''function'', JObj
                                     [(''name'', case map_of fkvs ''name'' of Some n \<Rightarrow> n | None \<Rightarrow> JNull),
                                      (''arguments'', JStr (dumps
                                         (case map_of fkvs ''args'' of Some a \<Rightarrow> a | None \<Rightarrow> JObj [])))])]]\<rparr>))
                    | _ \<Rightarrow> ([], Inl AttributeError))
               | None \<Rightarrow> ([], Inr st)))
      | _ \<Rightarrow> ([], Inl AttributeError))"

fun process_parts ::
  "(json \<Rightarrow> string) \<Rightarrow> json list \<Rightarrow> stream_state \<Rightarrow> event list \<times> (py_error + stream_state)" where
  "process_parts dumps [] st = ([], Inr st)"
| "process_parts dumps (p # ps) st =
     (case process_part dumps p st of
        (evs, Inl e) \<Rightarrow> (evs, Inl e)
      | (evs, Inr st') \<Rightarrow>
          (case process_parts dumps ps st' of (evs', r) \<Rightarrow> (evs @ evs', r)))"

text \<open>
  \<^verbatim>\<open>if parts: for part in parts: ...\<close> (lines 70-71). A truthy value that is
  not a list fails on its first element: a string and a dictionary iterate over strings,
  which have no \<^verbatim>\<open>get\<close>; a number and \<^verbatim>\<open>True\<close> do not iterate.
\<close>

definition iterate_parts ::
  "(json \<Rightarrow> string) \<Rightarrow> json \<Rightarrow> stream_state \<Rightarrow> event list \<times> (py_error + stream_state)" where
  "iterate_parts dumps parts st =
     (if \<not> truthy parts then ([], Inr st)
      else (case parts of
              JArr ps \<Rightarrow> process_parts dumps ps st
            | JStr s \<Rightarrow> ([], Inl AttributeError)
            | JObj kvs \<Rightarrow> ([], Inl AttributeError)
            | _ \<Rightarrow> ([], Inl TypeError)))"

text \<open>
  Lines 67-99, for one decoded document: the parts of the first candidate, then the
  flush of the pending tool calls when the candidate has a finish reason.
\<close>

definition process_document ::
  "(json \<Rightarrow> string) \<Rightarrow> json \<Rightarrow> stream_state \<Rightarrow> event list \<times> (py_error + stream_state)" where
  "process_document dumps data st =
     (case dict_get data ''response'' (JObj []) of
        Inl e \<Rightarrow> ([], Inl e)
      | Inr resp \<Rightarrow>
     (case dict_get resp ''candidates'' (JArr [JObj []]) of
        Inl e \<Rightarrow> ([], Inl e)
      | Inr candidates \<Rightarrow>
     (case subscript0 candidates of
        Inl e \<Rightarrow> ([], Inl e)
      | Inr cand \<Rightarrow>
     (case dict_get cand ''content'' (JObj []) of
        Inl e \<Rightarrow> ([], Inl e)
      | Inr content \<Rightarrow>
     (case dict_get content ''parts'' (JArr []) of
        Inl e \<Rightarrow> ([], Inl e)
      | Inr parts \<Rightarrow>
     (case iterate_parts dumps parts st of
        (evs, Inl e) \<Rightarrow> (evs, Inl e)
      | (evs, Inr st1) \<Rightarrow>
     (case dict_get cand ''finishReason'' JNull of
        Inl e \<Rightarrow> (evs, Inl e)
      | Inr finish_reason \<Rightarrow>
          if truthy finish_reason \<and> tool_calls st1 \<noteq> [] then
            (evs @ (if thinking_started st1 then [think_close] else []) @
               [ToolCalls (tool_calls st1)],
             Inr \<lparr>thinking_started = False, tool_calls = []\<rparr>)
          else (evs, Inr st1))))))))"

text \<open>
  What \<^verbatim>\<open>json.loads\<close> does with a string: it returns the decoded document,
  raises \<^verbatim>\<open>JSONDecodeError\<close>, or raises something else (a
  \<^verbatim>\<open>RecursionError\<close> on a text nested too deeply, a \<^verbatim>\<open>ValueError\<close> on
  an integer of more digits than the interpreter converts).
\<close>

datatype decode_result =
    Decoded json
  | JSONDecodeError
  | DecoderRaised py_error

text \<open>
  One line of the response (lines 61-103). \<open>loads\<close> is \<^verbatim>\<open>json.loads\<close>.
  The loop catches \<^verbatim>\<open>JSONDecodeError\<close> and nothing else: any other exception
  of the decoder leaves the generator, as those of the lines after it in the
  \<^verbatim>\<open>try\<close> block do. The second component is what the line logs: the payload of
  the \<^verbatim>\<open>logging.warning\<close> call.
\<close>

definition process_line ::
  "(string \<Rightarrow> decode_result) \<Rightarrow> (json \<Rightarrow> string) \<Rightarrow> string \<Rightarrow> stream_state \<Rightarrow>
     event list \<times> string list \<times> (py_error + stream_state)" where
  "process_line loads dumps line st =
     (if take 6 line \<noteq> ''data: '' then ([], [], Inr st)
      else (let json_str = drop 6 line in
        case loads json_str of
          Decoded data \<Rightarrow> (case process_document dumps data st of (evs, r) \<Rightarrow> (evs, [], r))
        | JSONDecodeError \<Rightarrow> ([], [json_str], Inr st)
        | DecoderRaised err \<Rightarrow> ([], [], Inl err)))"

fun stream_loop ::
  "(string \<Rightarrow> decode_result) \<Rightarrow> (json \<Rightarrow> string) \<Rightarrow> string list \<Rightarrow> stream_state \<Rightarrow>
     event list \<times> string list \<times> (py_error + stream_state)" where
  "stream_loop loads dumps [] st = ([], [], Inr st)"
| "stream_loop loads dumps (l # ls) st =
     (case process_line loads dumps l st of
        (evs, ws, Inl e) \<Rightarrow> (evs, ws, Inl e)
      | (evs, ws, Inr st') \<Rightarrow>
          (case stream_loop loads dumps ls st' of (evs', ws', r) \<Rightarrow> (evs @ evs', ws @ ws', r)))"

text \<open>
  Lines 56-103 of \<^verbatim>\<open>ApiClient.generate_assistant_response\<close>: the loop over the
  lines of a response with status 200, from the initial state. (Lines 30-54 before it get
  the token and open the request.) The result is the events yielded in order, the
  payloads logged as unparsable, and how the generator ends: \<open>Inr\<close> for exhaustion,
  \<open>Inl\<close> for an exception that leaves it.
\<close>

definition generate_assistant_response ::
  "(string \<Rightarrow> decode_result) \<Rightarrow> (json \<Rightarrow> string) \<Rightarrow> string list \<Rightarrow>
     event list \<times> string list \<times> (py_error + stream_state)" where
  "generate_assistant_response loads dumps lines =
     stream_loop loads dumps lines \<lparr>thinking_started = False, tool_calls = []\<rparr>"

section \<open>The token manager (token_manager.py)\<close>

text \<open>
  \<^verbatim>\<open>TokenManager\<close> keeps one field of its own, the rotation cursor
  \<^verbatim>\<open>current_token_index\<close>; everything else it touches is outside the process:
  the accounts file, the clock, the token endpoint and the log. The state below holds
  the cursor, the file, the condition of the disk, and counters of the clock reads and the POST requests made so
  far; the environment gives the value of each clock read and the outcome of each POST.
\<close>

text \<open>
  The accounts file as \<^verbatim>\<open>_read_accounts\<close> finds it: absent; present but
  unreadable or not JSON (\<^verbatim>\<open>IOError\<close>, \<^verbatim>\<open>JSONDecodeError\<close>), which
  includes an empty file and a proper prefix of a JSON text; holding a document; or such
  that reading it raises an exception the function does not catch (bytes that are not
  UTF-8, a document nested too deeply).
\<close>

datatype file_state =
    Missing
  | Unreadable
  | Contents json
  | ReadRaises py_error

text \<open>
  What happens to a write of the accounts file: it succeeds; or the directory or the
  file cannot be opened, which leaves the file as it was; or the write fails after
  \<^verbatim>\<open>open(..., 'w')\<close> has truncated the file, which leaves a proper prefix of the
  new text.
\<close>

datatype disk_state =
    Writable
  | OpenFails
  | WriteFails

text \<open>
  What \<^verbatim>\<open>requests.post\<close>, \<^verbatim>\<open>raise_for_status\<close> and
  \<^verbatim>\<open>response.json()\<close> give together: the decoded body of a successful
  response; a \<^verbatim>\<open>RequestException\<close>, with the text of its response when it
  has one; or an exception of another class.
\<close>

datatype http_result =
    RequestException "string option"
  | HttpOk json
  | HttpRaises py_error

text \<open>The calls to \<^verbatim>\<open>logging\<close>, one constructor for each call site.\<close>

datatype log_record =
    ReadError
  | WriteError
  | RefreshAttempt
  | NoRefreshToken
  | RefreshSucceeded
  | RefreshFailed
  | RefreshErrorResponse string
  | WillTryNext json
  | NoValidTokens

record env =
  time_at :: "nat \<Rightarrow> real"
  post_at :: "nat \<Rightarrow> json \<Rightarrow> http_result"

record tm_state =
  current_token_index :: nat
  accounts_file :: file_state
  disk :: disk_state
  ticks :: nat
  posts :: nat
  log :: "log_record list"

definition add_log :: "log_record \<Rightarrow> tm_state \<Rightarrow> tm_state" where
  "add_log r s = s\<lparr>log := log s @ [r]\<rparr>"

text \<open>\<^verbatim>\<open>_read_accounts\<close> (lines 32-41).\<close>

definition read_accounts :: "tm_state \<Rightarrow> (py_error + json) \<times> tm_state" where
  "read_accounts s =
     (case accounts_file s of
        Missing \<Rightarrow> (Inr (JArr []), s)
      | Unreadable \<Rightarrow> (Inr (JArr []), add_log ReadError s)
      | Contents j \<Rightarrow> (Inr j, s)
      | ReadRaises err \<Rightarrow> (Inl err, s))"

text \<open>
  \<^verbatim>\<open>_write_accounts\<close> (lines 43-51). Every \<^verbatim>\<open>IOError\<close> is logged
  and swallowed. One raised before the file is open leaves the file as it was; one
  raised after \<^verbatim>\<open>open(..., 'w')\<close> leaves the truncated file with a part of
  the new text, which no later read can parse.
\<close>

definition write_accounts :: "json \<Rightarrow> tm_state \<Rightarrow> tm_state" where
  "write_accounts accounts s =
     (case disk s of
        Writable \<Rightarrow> s\<lparr>accounts_file := Contents accounts\<rparr>
      | OpenFails \<Rightarrow> add_log WriteError s
      | WriteFails \<Rightarrow> add_log WriteError (s\<lparr>accounts_file := Unreadable\<rparr>))"

text \<open>\<^verbatim>\<open>int(x)\<close> of a float: truncation towards zero.\<close>

definition py_int :: "real \<Rightarrow> int" where
  "py_int x = (if 0 \<le> x then \<lfloor>x\<rfloor> else \<lceil>x\<rceil>)"

text \<open>\<^verbatim>\<open>d[k] = v\<close> on the entries of a dictionary.\<close>

definition dict_set :: "string \<Rightarrow> json \<Rightarrow> (string \<times> json) list \<Rightarrow> (string \<times> json) list" where
  "dict_set k v kvs = AList.update k v kvs"

text \<open>
  \<^verbatim>\<open>_refresh_token\<close> (lines 53-83). The result is \<open>Inr None\<close> where the
  source returns \<^verbatim>\<open>None\<close>, \<open>Inr (Some account)\<close> where it returns the
  updated account, and \<open>Inl\<close> for an exception it does not catch: one of the
  request that is no \<^verbatim>\<open>RequestException\<close>, or the \<^verbatim>\<open>KeyError\<close> or
  \<^verbatim>\<open>TypeError\<close> of a successful response whose body lacks a key or is no
  dictionary. The account is updated only after both keys were read.
\<close>

definition refresh_token :: "env \<Rightarrow> json \<Rightarrow> tm_state \<Rightarrow> (py_error + json option) \<times> tm_state" where
  "refresh_token e account s =
     (let s1 = add_log RefreshAttempt s in
      case account of
        JObj kvs \<Rightarrow>
          (let refresh_tok = (case map_of kvs ''refresh_token'' of Some v \<Rightarrow> v | None \<Rightarrow> JNull) in
           if \<not> truthy refresh_tok then (Inr None, add_log NoRefreshToken s1)
           else
             (let s2 = s1\<lparr>posts := Suc (posts s1)\<rparr> in
              case post_at e (posts s1) refresh_tok of
                RequestException resp \<Rightarrow>
                  (Inr None,
                   (case resp of
                      None \<Rightarrow> add_log RefreshFailed s2
                    | Some txt \<Rightarrow> add_log (RefreshErrorResponse txt) (add_log RefreshFailed s2)))
              | HttpRaises err \<Rightarrow> (Inl err, s2)
              | HttpOk new_token_data \<Rightarrow>
                  (case subscript new_token_data ''access_token'' of
                     Inl err \<Rightarrow> (Inl err, s2)
                   | Inr access \<Rightarrow>
                  (case subscript new_token_data ''expires_in'' of
                     Inl err \<Rightarrow> (Inl err, s2)
                   | Inr expires \<Rightarrow>
                       (Inr (Some (JObj
                          (dict_set ''timestamp'' (JInt (py_int (time_at e (ticks s2))))
                            (dict_set ''expires_in'' expires
                              (dict_set ''access_token'' access kvs))))),
                        add_log RefreshSucceeded (s2\<lparr>ticks := Suc (ticks s2)\<rparr>))))))
      | _ \<Rightarrow> (Inl AttributeError, s1))"

text \<open>
  A number as Python arithmetic reads it: \<^verbatim>\<open>bool\<close> is a subtype of
  \<^verbatim>\<open>int\<close>.
\<close>

fun py_number :: "json \<Rightarrow> int option" where
  "py_number (JInt n) = Some n"
| "py_number (JBool b) = Some (if b then 1 else 0)"
| "py_number _ = None"

text \<open>
  Line 104: \<^verbatim>\<open>(account.get('timestamp', 0) + account.get('expires_in', 0) - 60) < time.time()\<close>,
  with \<open>now\<close> the value \<^verbatim>\<open>time.time()\<close> returns. Operands that are not both
  numbers raise \<^verbatim>\<open>TypeError\<close>, in the sum or in the subtraction.
\<close>

definition is_expired :: "(string \<times> json) list \<Rightarrow> real \<Rightarrow> py_error + bool" where
  "is_expired kvs now =
     (case (py_number (case map_of kvs ''timestamp'' of Some v \<Rightarrow> v | None \<Rightarrow> JInt 0),
            py_number (case map_of kvs ''expires_in'' of Some v \<Rightarrow> v | None \<Rightarrow> JInt 0)) of
        (Some issued, Some expires) \<Rightarrow> Inr (real_of_int (issued + expires - 60) < now)
      | _ \<Rightarrow> Inl TypeError)"

text \<open>
  The loop of \<^verbatim>\<open>get_token\<close> (lines 95-122) over the remaining values of
  \<^verbatim>\<open>i\<close>, and the two lines after it for the exhausted range.
\<close>

fun scan :: "env \<Rightarrow> json list \<Rightarrow> nat list \<Rightarrow> tm_state \<Rightarrow> (py_error + json option) \<times> tm_state" where
  "scan e accounts [] s = (Inr None, add_log NoValidTokens s)"
| "scan e accounts (i # rest) s =
     (let num_accounts = length accounts;
          index = (current_token_index s + i) mod num_accounts;
          account = accounts ! index
      in case account of
        JObj kvs \<Rightarrow>
          if truthy (case map_of kvs ''disabled'' of Some v \<Rightarrow> v | None \<Rightarrow> JNull)
          then scan e accounts rest s
          else
            (case is_expired kvs (time_at e (ticks s)) of
               Inl err \<Rightarrow> (Inl err, s)
             | Inr True \<Rightarrow>
                 (case refresh_token e account (s\<lparr>ticks := Suc (ticks s)\<rparr>) of
                    (Inl err, s') \<Rightarrow> (Inl err, s')
                  | (Inr (Some refreshed_account), s') \<Rightarrow>
                      (Inr (Some refreshed_account),
                       (write_accounts (JArr (accounts[index := refreshed_account])) s')
                         \<lparr>current_token_index := (index + 1) mod num_accounts\<rparr>)
                  | (Inr None, s') \<Rightarrow>
                      scan e accounts rest
                        (add_log (WillTryNext
                           (case map_of kvs ''refresh_token'' of Some v \<Rightarrow> v | None \<Rightarrow> JNull)) s'))
             | Inr False \<Rightarrow>
                 (Inr (Some account),
                  s\<lparr>ticks := Suc (ticks s),
                    current_token_index := (index + 1) mod num_accounts\<rparr>))
      | _ \<Rightarrow> (Inl AttributeError, s))"

text \<open>
  \<^verbatim>\<open>get_token\<close> (lines 84-125). A file whose document is truthy but not a
  list fails before or at the first candidate: \<^verbatim>\<open>len\<close> of a number raises
  \<^verbatim>\<open>TypeError\<close>, a dictionary has no key \<^verbatim>\<open>index\<close>, and the
  characters of a string have no \<^verbatim>\<open>get\<close>.
\<close>

definition get_token :: "env \<Rightarrow> tm_state \<Rightarrow> (py_error + json option) \<times> tm_state" where
  "get_token e s =
     (case read_accounts s of
        (Inl err, s1) \<Rightarrow> (Inl err, s1)
      | (Inr accounts, s1) \<Rightarrow>
          if \<not> truthy accounts then (Inr None, s1)
          else (case accounts of
                  JArr xs \<Rightarrow> scan e xs [0..<length xs] s1
                | JObj kvs \<Rightarrow> (Inl KeyError, s1)
                | JStr str \<Rightarrow> (Inl AttributeError, s1)
                | _ \<Rightarrow> (Inl TypeError, s1)))"

text \<open>\<open>n\<close> consecutive calls of \<^verbatim>\<open>get_token\<close>: what each returned, and the final state.\<close>

fun get_tokens :: "env \<Rightarrow> nat \<Rightarrow> tm_state \<Rightarrow> (py_error + json option) list \<times> tm_state" where
  "get_tokens e 0 s = ([], s)"
| "get_tokens e (Suc n) s =
     (case get_token e s of (r, s') \<Rightarrow>
        (case get_tokens e n s' of (rs, s'') \<Rightarrow> (r # rs, s'')))"

section \<open>The message translator (utils.py)\<close>

text \<open>
  The functions of \<^verbatim>\<open>utils.py\<close> read a message with
  \<^verbatim>\<open>message.get(...)\<close> and with \<^verbatim>\<open>message['content']\<close>,
  \<^verbatim>\<open>message['tool_calls']\<close>: a message is a dictionary, here a \<open>json\<close> value.
\<close>

text \<open>
  Python's \<^verbatim>\<open>==\<close> on decoded JSON: \<^verbatim>\<open>True == 1\<close>, lists compare
  element by element and dictionaries as mappings.
\<close>

fun py_eq :: "json \<Rightarrow> json \<Rightarrow> bool" where
  "py_eq JNull JNull = True"
| "py_eq (JBool a) (JBool b) = (a = b)"
| "py_eq (JBool a) (JInt n) = ((if a then 1 else 0) = n)"
| "py_eq (JInt m) (JBool b) = (m = (if b then 1 else 0))"
| "py_eq (JInt m) (JInt n) = (m = n)"
| "py_eq (JStr s) (JStr t) = (s = t)"
| "py_eq (JArr xs) (JArr ys) = list_all2 py_eq xs ys"
| "py_eq (JObj a) (JObj b) =
     (length a = length b \<and>
      list_all (\<lambda>(k, v). case map_of b k of Some w \<Rightarrow> py_eq v w | None \<Rightarrow> False) a)"
| "py_eq _ _ = False"

text \<open>
  \<^verbatim>\<open>generate_request_id\<close> (lines 29-31). The body is
  \<^verbatim>\<open>return f"req_{{uuid.uuid4().hex}}"\<close>: in an f-string a doubled brace is a
  literal brace, so no expression is evaluated and \<^verbatim>\<open>uuid.uuid4\<close> is never
  called. \<open>w\<close> is the state of the random source a call could have drawn from; it comes
  back untouched.
\<close>

definition generate_request_id :: "'w \<Rightarrow> string \<times> 'w" where
  "generate_request_id w = (''req_{uuid.uuid4().hex}'', w)"

text \<open>
  The upstream conversation the translator builds:
  \<^verbatim>\<open>{'role': r, 'parts': [...]}\<close> with the four shapes of part the module writes,
  \<^verbatim>\<open>{'text': t}\<close>,
  \<^verbatim>\<open>{'inlineData': {'mimeType': m, 'data': d}}\<close>,
  \<^verbatim>\<open>{'functionCall': {'id': i, 'name': n, 'args': a}}\<close> and
  \<^verbatim>\<open>{'functionResponse': {'id': i, 'name': n, 'response': r}}\<close>.
\<close>

datatype role = User | Model

datatype part =
    TextPart string
  | InlineData string string
  | FunctionCall json json json
  | FunctionResponse json json json

record turn =
  role :: role
  parts :: "part list"

text \<open>
  The loop of \<^verbatim>\<open>extract_images_from_content\<close> over the items of a list
  (lines 42-57). \<open>match_uri\<close> is \<^verbatim>\<open>re.match\<close> with the pattern of line 48,
  giving the two groups of a match.
\<close>

fun extract_items ::
  "(string \<Rightarrow> (string \<times> string) option) \<Rightarrow> json list \<Rightarrow> string \<times> part list \<Rightarrow>
     py_error + string \<times> part list" where
  "extract_items match_uri [] result = Inr result"
| "extract_items match_uri (item # items) (text, images) =
     (case item of
        JObj kvs \<Rightarrow>
          if map_of kvs ''type'' = Some (JStr ''text'') then
            (case (case map_of kvs ''text'' of Some v \<Rightarrow> v | None \<Rightarrow> JStr []) of
               JStr t \<Rightarrow> extract_items match_uri items (text @ t, images)
             | _ \<Rightarrow> Inl TypeError)
          else if map_of kvs ''type'' = Some (JStr ''image_url'') then
            (case dict_get (case map_of kvs ''image_url'' of Some v \<Rightarrow> v | None \<Rightarrow> JObj [])
                    ''url'' (JStr []) of
               Inl err \<Rightarrow> Inl err
             | Inr (JStr image_url) \<Rightarrow>
                 (case match_uri image_url of
                    Some (img_format, base64_data) \<Rightarrow>
                      extract_items match_uri items
                        (text, images @ [InlineData (''image/'' @ img_format) base64_data])
                  | None \<Rightarrow> extract_items match_uri items (text, images))
             | Inr _ \<Rightarrow> Inl TypeError)
          else extract_items match_uri items (text, images)
      | _ \<Rightarrow> Inl AttributeError)"

text \<open>\<^verbatim>\<open>extract_images_from_content\<close> (lines 34-58).\<close>

definition extract_images_from_content ::
  "(string \<Rightarrow> (string \<times> string) option) \<Rightarrow> json \<Rightarrow> py_error + string \<times> part list" where
  "extract_images_from_content match_uri content =
     (case content of
        JStr s \<Rightarrow> Inr (s, [])
      | JArr items \<Rightarrow> extract_items match_uri items ([], [])
      | _ \<Rightarrow> Inr ([], []))"

text \<open>\<^verbatim>\<open>handle_user_message\<close> (lines 61-66).\<close>

definition handle_user_message :: "string \<times> part list \<Rightarrow> turn list \<Rightarrow> turn list" where
  "handle_user_message extracted antigravity_messages =
     antigravity_messages @ [\<lparr>role = User, parts = TextPart (fst extracted) # snd extracted\<rparr>]"

text \<open>
  The characters \<^verbatim>\<open>str.strip()\<close> removes, among the code points below 256.
\<close>

definition is_space :: "char \<Rightarrow> bool" where
  "is_space c = ((of_char c :: nat) \<in> {9, 10, 11, 12, 13, 28, 29, 30, 31, 32, 133, 160})"

text \<open>
  The arguments of a tool call (lines 77-82). \<open>loads\<close> is \<^verbatim>\<open>json.loads\<close>.
  The \<^verbatim>\<open>except\<close> clause catches \<^verbatim>\<open>JSONDecodeError\<close> and
  \<^verbatim>\<open>TypeError\<close>, the latter being what decoding something that is no string
  raises; any other exception of the decoder is raised.
\<close>

definition parse_arguments :: "(string \<Rightarrow> decode_result) \<Rightarrow> json \<Rightarrow> py_error + json" where
  "parse_arguments loads arguments =
     (case arguments of
        JStr a \<Rightarrow>
          (case loads a of
             Decoded j \<Rightarrow> Inr j
           | JSONDecodeError \<Rightarrow> Inr (JObj [(''query'', arguments)])
           | DecoderRaised err \<Rightarrow>
               if err = TypeError then Inr (JObj [(''query'', arguments)]) else Inl err)
      | _ \<Rightarrow> Inr (JObj [(''query'', arguments)]))"

text \<open>
  One tool call of an assistant message (lines 77-90). The handler of the
  \<^verbatim>\<open>except\<close> clause evaluates the subscripts of the \<^verbatim>\<open>try\<close> block
  again, so a \<^verbatim>\<open>TypeError\<close> of theirs is raised from there.
\<close>

definition convert_tool_call :: "(string \<Rightarrow> decode_result) \<Rightarrow> json \<Rightarrow> py_error + part" where
  "convert_tool_call loads tool_call =
     (case subscript tool_call ''function'' of
        Inl err \<Rightarrow> Inl err
      | Inr func \<Rightarrow>
     (case subscript func ''arguments'' of
        Inl err \<Rightarrow> Inl err
      | Inr arguments \<Rightarrow>
     (case parse_arguments loads arguments of
        Inl err \<Rightarrow> Inl err
      | Inr args \<Rightarrow>
     (case subscript tool_call ''id'' of
        Inl err \<Rightarrow> Inl err
      | Inr i \<Rightarrow>
     (case subscript func ''name'' of
        Inl err \<Rightarrow> Inl err
      | Inr n \<Rightarrow> Inr (FunctionCall i n args))))))"

fun convert_tool_calls :: "(string \<Rightarrow> decode_result) \<Rightarrow> json list \<Rightarrow> py_error + part list" where
  "convert_tool_calls loads [] = Inr []"
| "convert_tool_calls loads (tc # tcs) =
     (case convert_tool_call loads tc of
        Inl err \<Rightarrow> Inl err
      | Inr p \<Rightarrow>
          (case convert_tool_calls loads tcs of
             Inl err \<Rightarrow> Inl err
           | Inr ps \<Rightarrow> Inr (p # ps)))"

text \<open>
  \<^verbatim>\<open>bool(message.get('content') and message['content'].strip())\<close> (line 72):
  a truthy content that is no string has no \<^verbatim>\<open>strip\<close>.
\<close>

definition has_content :: "json \<Rightarrow> py_error + bool" where
  "has_content content =
     (if \<not> truthy content then Inr False
      else (case content of
              JStr s \<Rightarrow> Inr (list_ex (\<lambda>c. \<not> is_space c) s)
            | _ \<Rightarrow> Inl AttributeError))"

text \<open>
  \<^verbatim>\<open>handle_assistant_message\<close> (lines 69-105). Iterating over truthy tool calls
  that are not a list gives strings or fails at once; a string has no key
  \<^verbatim>\<open>'function'\<close>, so each such case raises \<^verbatim>\<open>TypeError\<close>.
\<close>

definition handle_assistant_message ::
  "(string \<Rightarrow> decode_result) \<Rightarrow> json \<Rightarrow> turn list \<Rightarrow> py_error + turn list" where
  "handle_assistant_message loads message antigravity_messages =
     (case message of
        JObj kvs \<Rightarrow>
          (let tcs = (case map_of kvs ''tool_calls'' of Some v \<Rightarrow> v | None \<Rightarrow> JNull);
               content = (case map_of kvs ''content'' of Some v \<Rightarrow> v | None \<Rightarrow> JNull);
               has_tool_calls = truthy tcs
           in case has_content content of
                Inl err \<Rightarrow> Inl err
              | Inr has_text \<Rightarrow>
           (case (if has_tool_calls
                  then (case tcs of JArr xs \<Rightarrow> convert_tool_calls loads xs | _ \<Rightarrow> Inl TypeError)
                  else Inr []) of
                Inl err \<Rightarrow> Inl err
              | Inr antigravity_tools \<Rightarrow>
                  if antigravity_messages \<noteq> [] \<and> role (last antigravity_messages) = Model \<and>
                     has_tool_calls \<and> \<not> has_text
                  then Inr (butlast antigravity_messages @
                         [(last antigravity_messages)
                            \<lparr>parts := parts (last antigravity_messages) @ antigravity_tools\<rparr>])
                  else
                    (let new_parts =
                       (if has_text then (case content of JStr s \<Rightarrow> [TextPart s] | _ \<Rightarrow> []) else []) @
                       antigravity_tools
                     in if new_parts \<noteq> []
                        then Inr (antigravity_messages @ [\<lparr>role = Model, parts = new_parts\<rparr>])
                        else Inr antigravity_messages)))
      | _ \<Rightarrow> Inl AttributeError)"

text \<open>
  The inner loop of \<^verbatim>\<open>handle_tool_call\<close> (lines 114-117): the name of the first
  function call of a turn whose id equals the tool call id.
\<close>

fun first_match :: "json \<Rightarrow> part list \<Rightarrow> json option" where
  "first_match tool_call_id [] = None"
| "first_match tool_call_id (FunctionCall i n a # ps) =
     (if py_eq i tool_call_id then Some n else first_match tool_call_id ps)"
| "first_match tool_call_id (p # ps) = first_match tool_call_id ps"

text \<open>
  The outer loop (lines 112-119) over the turns from the last to the first, given here
  in that order. \<open>function_name\<close> is the variable of the source: a model turn assigns
  it on a match, and the loop stops once it is truthy.
\<close>

fun find_function_name :: "json \<Rightarrow> turn list \<Rightarrow> json \<Rightarrow> json" where
  "find_function_name tool_call_id [] function_name = function_name"
| "find_function_name tool_call_id (t # ts) function_name =
     (if role t = Model then
        (let function_name' =
           (case first_match tool_call_id (parts t) of Some n \<Rightarrow> n | None \<Rightarrow> function_name)
         in if truthy function_name' then function_name'
            else find_function_name tool_call_id ts function_name')
      else find_function_name tool_call_id ts function_name)"

fun is_function_response :: "part \<Rightarrow> bool" where
  "is_function_response (FunctionResponse i n r) = True"
| "is_function_response _ = False"

text \<open>\<^verbatim>\<open>handle_tool_call\<close> (lines 108-138).\<close>

definition handle_tool_call :: "json \<Rightarrow> turn list \<Rightarrow> py_error + turn list" where
  "handle_tool_call message antigravity_messages =
     (case message of
        JObj kvs \<Rightarrow>
          (let tool_call_id = (case map_of kvs ''tool_call_id'' of Some v \<Rightarrow> v | None \<Rightarrow> JNull);
               function_name = find_function_name tool_call_id (rev antigravity_messages) (JStr []);
               function_response =
                 FunctionResponse tool_call_id function_name
                   (JObj [(''output'', case map_of kvs ''content'' of Some v \<Rightarrow> v | None \<Rightarrow> JNull)])
           in if antigravity_messages \<noteq> [] \<and> role (last antigravity_messages) = User \<and>
                 list_ex is_function_response (parts (last antigravity_messages))
              then Inr (butlast antigravity_messages @
                     [(last antigravity_messages)
                        \<lparr>parts := parts (last antigravity_messages) @ [function_response]\<rparr>])
              else Inr (antigravity_messages @ [\<lparr>role = User, parts = [function_response]\<rparr>]))
      | _ \<Rightarrow> Inl AttributeError)"

text \<open>
  The loop of \<^verbatim>\<open>openai_message_to_antigravity\<close> (lines 144-153) from a given
  list of turns; a message of any other role is passed over.
\<close>

fun translate_from ::
  "(string \<Rightarrow> decode_result) \<Rightarrow> (string \<Rightarrow> (string \<times> string) option) \<Rightarrow> json list \<Rightarrow> turn list \<Rightarrow>
     py_error + turn list" where
  "translate_from loads match_uri [] antigravity_messages = Inr antigravity_messages"
| "translate_from loads match_uri (message # rest) antigravity_messages =
     (case dict_get message ''role'' JNull of
        Inl err \<Rightarrow> Inl err
      | Inr r \<Rightarrow>
          if r = JStr ''user'' \<or> r = JStr ''system'' then
            (case dict_get message ''content'' (JStr []) of
               Inl err \<Rightarrow> Inl err
             | Inr content \<Rightarrow>
                 (case extract_images_from_content match_uri content of
                    Inl err \<Rightarrow> Inl err
                  | Inr extracted \<Rightarrow>
                      translate_from loads match_uri rest
                        (handle_user_message extracted antigravity_messages)))
          else if r = JStr ''assistant'' then
            (case handle_assistant_message loads message antigravity_messages of
               Inl err \<Rightarrow> Inl err
             | Inr msgs \<Rightarrow> translate_from loads match_uri rest msgs)
          else if r = JStr ''tool'' then
            (case handle_tool_call message antigravity_messages of
               Inl err \<Rightarrow> Inl err
             | Inr msgs \<Rightarrow> translate_from loads match_uri rest msgs)
          else translate_from loads match_uri rest antigravity_messages)"

text \<open>\<^verbatim>\<open>openai_message_to_antigravity\<close> (lines 141-154).\<close>

definition openai_message_to_antigravity ::
  "(string \<Rightarrow> decode_result) \<Rightarrow> (string \<Rightarrow> (string \<times> string) option) \<Rightarrow> json list \<Rightarrow>
     py_error + turn list" where
  "openai_message_to_antigravity loads match_uri openai_messages =
     translate_from loads match_uri openai_messages []"

section \<open>Inputs of the examples\<close>

text \<open>
  Three documents of an upstream stream: a thought part \<open>a\<close>, a text part \<open>b\<close>, and
  a call of the function \<open>f\<close> in a candidate that carries a finish reason.
\<close>

definition doc_thought :: json where
  "doc_thought =
     JObj [(''response'', JObj [(''candidates'', JArr [JObj [(''content'',
       JObj [(''parts'', JArr [JObj [(''thought'', JBool True), (''text'', JStr ''a'')]])])]])])]"

definition doc_text :: json where
  "doc_text =
     JObj [(''response'', JObj [(''candidates'', JArr [JObj [(''content'',
       JObj [(''parts'', JArr [JObj [(''text'', JStr ''b'')]])])]])])]"

definition doc_call :: json where
  "doc_call =
     JObj [(''response'', JObj [(''candidates'', JArr [JObj
       [(''content'', JObj [(''parts'', JArr [JObj [(''functionCall'', JObj [(''name'', JStr ''f'')])]])]),
        (''finishReason'', JStr ''STOP'')]])])]"

text \<open>
  A payload of 100000 opening brackets: \<^verbatim>\<open>json.loads\<close> raises
  \<^verbatim>\<open>RecursionError\<close> on it.
\<close>

definition deep_payload :: string where
  "deep_payload = replicate 100000 (CHR ''['')"

text \<open>
  A decoder that knows three payloads, raises \<^verbatim>\<open>RecursionError\<close> on the deep
  one and \<^verbatim>\<open>JSONDecodeError\<close> on every other one, and an encoder that writes
  every value as \<open>{}\<close>; they stand for \<^verbatim>\<open>json.loads\<close> and
  \<^verbatim>\<open>json.dumps\<close> where a closed example needs them.
\<close>

definition example_loads :: "string \<Rightarrow> decode_result" where
  "example_loads s =
     (if s = ''1'' then Decoded doc_thought
      else if s = ''2'' then Decoded doc_text
      else if s = ''3'' then Decoded doc_call
      else if s = deep_payload then DecoderRaised RecursionError
      else JSONDecodeError)"

definition example_dumps :: "json \<Rightarrow> string" where
  "example_dumps j = ''{}''"

text \<open>
  A credential is usable at clock read \<open>t\<close> when it is a dictionary, its
  \<^verbatim>\<open>disabled\<close> entry is not truthy and the check of line 104 finds it not
  expired.
\<close>

definition fresh_at :: "env \<Rightarrow> nat \<Rightarrow> json \<Rightarrow> bool" where
  "fresh_at e t account =
     (case account of
        JObj kvs \<Rightarrow>
          \<not> truthy (case map_of kvs ''disabled'' of Some v \<Rightarrow> v | None \<Rightarrow> JNull) \<and>
          is_expired kvs (time_at e t) = Inr False
      | _ \<Rightarrow> False)"

text \<open>
  A credential is unusable between two states of a call when it is disabled, or when
  one of the clock reads made in between finds it expired and it has no refresh token
  or one of the requests made in between for its refresh token failed.
\<close>

definition unusable :: "env \<Rightarrow> tm_state \<Rightarrow> tm_state \<Rightarrow> json \<Rightarrow> bool" where
  "unusable e s s' account =
     (case account of
        JObj kvs \<Rightarrow>
          truthy (case map_of kvs ''disabled'' of Some v \<Rightarrow> v | None \<Rightarrow> JNull) \<or>
          (\<exists>t. ticks s \<le> t \<and> t < ticks s' \<and> is_expired kvs (time_at e t) = Inr True) \<and>
          (\<not> truthy (case map_of kvs ''refresh_token'' of Some v \<Rightarrow> v | None \<Rightarrow> JNull) \<or>
           (\<exists>p resp. posts s \<le> p \<and> p < posts s' \<and>
              post_at e p (case map_of kvs ''refresh_token'' of Some v \<Rightarrow> v | None \<Rightarrow> JNull) =
                RequestException resp))
      | _ \<Rightarrow> False)"

text \<open>
  A pool of two credentials issued at 1000 for 3600 seconds, and an environment whose
  clock always reads \<open>now\<close> and whose token endpoint refuses every request.
\<close>

definition account_a :: json where
  "account_a = JObj [(''access_token'', JStr ''A''), (''refresh_token'', JStr ''ra''),
     (''expires_in'', JInt 3600), (''timestamp'', JInt 1000)]"

definition account_b :: json where
  "account_b = JObj [(''access_token'', JStr ''B''), (''refresh_token'', JStr ''rb''),
     (''expires_in'', JInt 3600), (''timestamp'', JInt 1000)]"

definition failing_env :: "real \<Rightarrow> env" where
  "failing_env now = \<lparr>time_at = (\<lambda>t. now), post_at = (\<lambda>n tok. RequestException None)\<rparr>"

definition example_state :: tm_state where
  "example_state =
     \<lparr>current_token_index = 1, accounts_file = Contents (JArr [account_a, account_b]),
      disk = Writable, ticks = 0, posts = 0, log = []\<rparr>"

text \<open>
  The same pool from a given cursor and on a given disk, with a first credential that
  may be another one.
\<close>

definition pool_state :: "json \<Rightarrow> nat \<Rightarrow> disk_state \<Rightarrow> tm_state" where
  "pool_state first cursor d =
     \<lparr>current_token_index = cursor, accounts_file = Contents (JArr [first, account_b]),
      disk = d, ticks = 0, posts = 0, log = []\<rparr>"

text \<open>A disabled credential, and one issued at 0 for 3600 seconds.\<close>

definition account_off :: json where
  "account_off = JObj [(''access_token'', JStr ''X''), (''refresh_token'', JStr ''rx''),
     (''expires_in'', JInt 3600), (''timestamp'', JInt 1000), (''disabled'', JBool True)]"

definition account_old :: json where
  "account_old = JObj [(''access_token'', JStr ''O''), (''refresh_token'', JStr ''ro''),
     (''expires_in'', JInt 3600), (''timestamp'', JInt 0)]"

text \<open>
  An endpoint that refuses the refresh token \<open>ra\<close> and answers every other one with
  a new access token, and an endpoint that answers every request with status 200 and
  the body \<open>{}\<close>.
\<close>

definition selective_env :: "real \<Rightarrow> env" where
  "selective_env now =
     \<lparr>time_at = (\<lambda>t. now),
      post_at = (\<lambda>n tok. if tok = JStr ''ra'' then RequestException None
                         else HttpOk (JObj [(''access_token'', JStr ''N''), (''expires_in'', JInt 3600)]))\<rparr>"

definition empty_body_env :: "real \<Rightarrow> env" where
  "empty_body_env now = \<lparr>time_at = (\<lambda>t. now), post_at = (\<lambda>n tok. HttpOk (JObj []))\<rparr>"

text \<open>All user turns of a conversation hold either no function response or nothing else.\<close>

definition homogeneous :: "turn \<Rightarrow> bool" where
  "homogeneous t =
     (role t = User \<longrightarrow>
        parts t \<noteq> [] \<and>
        (list_all is_function_response (parts t) \<or> \<not> list_ex is_function_response (parts t)))"

text \<open>
  Messages of a conversation: three assistant turns that carry one tool call each and
  no text (the calls \<open>c1\<close> of \<open>lookup\<close>, \<open>c2\<close> of \<open>search\<close>, and \<open>c1\<close>
  again, of \<open>other\<close>), and three tool turns with the results of \<open>c1\<close>, of \<open>c2\<close>
  and of a call \<open>c9\<close> that no turn made. The decoder of the arguments knows \<open>{}\<close>; no
  message carries an image.
\<close>

definition args_loads :: "string \<Rightarrow> decode_result" where
  "args_loads s = (if s = ''{}'' then Decoded (JObj []) else JSONDecodeError)"

definition no_match :: "string \<Rightarrow> (string \<times> string) option" where
  "no_match url = None"

definition assistant_lookup :: json where
  "assistant_lookup =
     JObj [(''role'', JStr ''assistant''), (''content'', JNull),
       (''tool_calls'', JArr [JObj [(''id'', JStr ''c1''), (''type'', JStr ''function''),
          (''function'', JObj [(''name'', JStr ''lookup''), (''arguments'', JStr ''{}'')])]])]"

definition assistant_search :: json where
  "assistant_search =
     JObj [(''role'', JStr ''assistant''), (''content'', JStr ''  ''),
       (''tool_calls'', JArr [JObj [(''id'', JStr ''c2''), (''type'', JStr ''function''),
          (''function'', JObj [(''name'', JStr ''search''), (''arguments'', JStr ''{}'')])]])]"

definition assistant_other :: json where
  "assistant_other =
     JObj [(''role'', JStr ''assistant''), (''content'', JStr ''  ''),
       (''tool_calls'', JArr [JObj [(''id'', JStr ''c1''), (''type'', JStr ''function''),
          (''function'', JObj [(''name'', JStr ''other''), (''arguments'', JStr ''{}'')])]])]"

definition tool_result :: json where
  "tool_result =
     JObj [(''role'', JStr ''tool''), (''tool_call_id'', JStr ''c1''), (''content'', JStr ''42'')]"

definition tool_result_search :: json where
  "tool_result_search =
     JObj [(''role'', JStr ''tool''), (''tool_call_id'', JStr ''c2''), (''content'', JStr ''7'')]"

definition tool_result_unknown :: json where
  "tool_result_unknown =
     JObj [(''role'', JStr ''tool''), (''tool_call_id'', JStr ''c9''), (''content'', JStr ''42'')]"

section \<open>Properties of the stream reassembler\<close>

text \<open>
  C1. For the documents \<open>[{thought: a}]\<close>, \<open>[{text: b}]\<close> and
  \<open>[{functionCall: {name: f}}, finish]\<close>, each on a payload line, the generator yields
  the opening marker of the thinking span, the thought \<open>a\<close>, the closing marker, the
  text \<open>b\<close> and one batch holding the call of \<open>f\<close>, in that order and nothing else;
  it logs nothing and ends without an exception.
\<close>

theorem reassembly_example:
  assumes "loads j1 = Decoded doc_thought" and "loads j2 = Decoded doc_text" and "loads j3 = Decoded doc_call"
  shows "generate_assistant_response loads dumps
           [''data: '' @ j1, ''data: '' @ j2, ''data: '' @ j3] =
     ([think_open, Thinking (JStr ''a''), think_close, Text (JStr ''b''),
       ToolCalls [JObj [(''id'', JNull), (''type'', JStr ''function''),
          (''function'', JObj [(''name'', JStr ''f''), (''arguments'', JStr (dumps (JObj [])))])]]],
      [], Inr \<lparr>thinking_started = False, tool_calls = []\<rparr>)"
  using assms
  by (simp add: generate_assistant_response_def process_line_def process_document_def
      iterate_parts_def process_part_def doc_thought_def doc_text_def doc_call_def)

theorem reassembly_example_witness:
  "generate_assistant_response example_loads example_dumps [''data: 1'', ''data: 2'', ''data: 3''] =
     ([Thinking (JStr ''<think>\<newline>''), Thinking (JStr ''a''),
       Thinking (JStr ''\<newline></think>\<newline>''), Text (JStr ''b''),
       ToolCalls [JObj [(''id'', JNull), (''type'', JStr ''function''),
          (''function'', JObj [(''name'', JStr ''f''), (''arguments'', JStr ''{}'')])]]],
      [], Inr \<lparr>thinking_started = False, tool_calls = []\<rparr>)"
  using reassembly_example [of example_loads "''1''" "''2''" "''3''" example_dumps]
  by (simp add: example_loads_def example_dumps_def think_open_def think_close_def)

text \<open>The loop over a concatenation runs the second list from the state the first one left.\<close>

lemma stream_loop_append:
  "stream_loop loads dumps (xs @ ys) st =
     (case stream_loop loads dumps xs st of
        (evs, ws, Inl e) \<Rightarrow> (evs, ws, Inl e)
      | (evs, ws, Inr st') \<Rightarrow>
          (case stream_loop loads dumps ys st' of (evs', ws', r) \<Rightarrow> (evs @ evs', ws @ ws', r)))"
  by (induction xs arbitrary: st) (auto split: prod.splits sum.splits)

lemma process_line_unparsable:
  assumes "take 6 bad = ''data: ''" and "loads (drop 6 bad) = JSONDecodeError"
  shows "process_line loads dumps bad st = ([], [drop 6 bad], Inr st)"
  using assms by (simp add: process_line_def)

lemma deep_payload_differs:
  assumes "length s < 100000"
  shows "(s = deep_payload) = False" and "(deep_payload = s) = False"
  using assms by (auto simp: deep_payload_def)

text \<open>
  C9. The claim is that one unparsable payload line between two valid ones leaves exactly
  the events of the two valid lines and raises nothing. It fails for a line on which
  the decoder raises something else than \<^verbatim>\<open>JSONDecodeError\<close>: on the payload of
  100000 opening brackets between the lines of the thought and of the text, the
  generator yields the events of the first line and ends with
  \<^verbatim>\<open>RecursionError\<close>; the events of the line after it never come. Without the
  line the stream yields four events and ends normally.
\<close>

theorem malformed_line_skipped_counterexample:
  "generate_assistant_response example_loads example_dumps
       [''data: 1'', ''data: '' @ deep_payload, ''data: 2''] =
     ([Thinking (JStr ''<think>\<newline>''), Thinking (JStr ''a'')], [], Inl RecursionError) \<and>
   generate_assistant_response example_loads example_dumps [''data: 1'', ''data: 2''] =
     ([Thinking (JStr ''<think>\<newline>''), Thinking (JStr ''a''),
       Thinking (JStr ''\<newline></think>\<newline>''), Text (JStr ''b'')],
      [], Inr \<lparr>thinking_started = False, tool_calls = []\<rparr>)"
proof -
  have deep: "example_loads deep_payload = DecoderRaised RecursionError"
    by (simp add: example_loads_def deep_payload_differs)
  have line: "take 6 (''data: '' @ deep_payload) = ''data: ''"
    "drop 6 (''data: '' @ deep_payload) = deep_payload"
    by simp_all
  have raised: "process_line example_loads example_dumps (''data: '' @ deep_payload) st =
      ([], [], Inl RecursionError)" for st
    unfolding process_line_def line by (simp add: deep)
  have first: "process_line example_loads example_dumps ''data: 1''
        \<lparr>thinking_started = False, tool_calls = []\<rparr> =
      ([Thinking (JStr ''<think>\<newline>''), Thinking (JStr ''a'')], [],
       Inr \<lparr>thinking_started = True, tool_calls = []\<rparr>)"
    by (simp add: process_line_def process_document_def iterate_parts_def process_part_def
        example_loads_def doc_thought_def think_open_def)
  have second: "process_line example_loads example_dumps ''data: 2''
        \<lparr>thinking_started = True, tool_calls = []\<rparr> =
      ([Thinking (JStr ''\<newline></think>\<newline>''), Text (JStr ''b'')], [],
       Inr \<lparr>thinking_started = False, tool_calls = []\<rparr>)"
    by (simp add: process_line_def process_document_def iterate_parts_def process_part_def
        example_loads_def doc_text_def think_close_def)
  show ?thesis
    using first second raised [of "\<lparr>thinking_started = True, tool_calls = []\<rparr>"]
    by (simp add: generate_assistant_response_def)
qed

text \<open>
  C9, as amended. A payload line on which the decoder raises
  \<^verbatim>\<open>JSONDecodeError\<close>, between lines \<open>xs\<close> that run without an exception and
  lines \<open>ys\<close>, changes neither the events yielded nor the way the generator ends: the
  stream yields what \<open>xs\<close> and \<open>ys\<close> yield, in order, as the stream without the
  line does. The line is logged, and the lines after it are processed from the state
  the lines before it left.
\<close>

theorem malformed_line_skipped:
  assumes "take 6 bad = ''data: ''" and "loads (drop 6 bad) = JSONDecodeError"
    and "generate_assistant_response loads dumps xs = (evs1, ws1, Inr st1)"
    and "stream_loop loads dumps ys st1 = (evs2, ws2, r)"
  shows "generate_assistant_response loads dumps (xs @ bad # ys) =
           (evs1 @ evs2, ws1 @ drop 6 bad # ws2, r) \<and>
         generate_assistant_response loads dumps (xs @ ys) = (evs1 @ evs2, ws1 @ ws2, r)"
proof -
  let ?st0 = "\<lparr>thinking_started = False, tool_calls = []\<rparr>"
  have first: "stream_loop loads dumps xs ?st0 = (evs1, ws1, Inr st1)"
    using assms(3) by (simp add: generate_assistant_response_def)
  have skipped: "stream_loop loads dumps (bad # ys) st1 = (evs2, drop 6 bad # ws2, r)"
    using assms(1,2,4) by (simp add: process_line_unparsable)
  have "stream_loop loads dumps (xs @ bad # ys) ?st0 = (evs1 @ evs2, ws1 @ drop 6 bad # ws2, r)"
    by (simp add: stream_loop_append first skipped del: stream_loop.simps)
  moreover have "stream_loop loads dumps (xs @ ys) ?st0 = (evs1 @ evs2, ws1 @ ws2, r)"
    by (simp add: stream_loop_append first assms(4))
  ultimately show ?thesis
    by (simp add: generate_assistant_response_def)
qed

theorem malformed_line_skipped_witness:
  "generate_assistant_response example_loads example_dumps [''data: 1'', ''data: {bad'', ''data: 2''] =
     ([Thinking (JStr ''<think>\<newline>''), Thinking (JStr ''a''),
       Thinking (JStr ''\<newline></think>\<newline>''), Text (JStr ''b'')],
      [''{bad''], Inr \<lparr>thinking_started = False, tool_calls = []\<rparr>)"
proof -
  have bad: "take 6 ''data: {bad'' = ''data: ''" "example_loads (drop 6 ''data: {bad'') = JSONDecodeError"
    by (simp_all add: example_loads_def deep_payload_differs)
  have before: "generate_assistant_response example_loads example_dumps [''data: 1''] =
      ([Thinking (JStr ''<think>\<newline>''), Thinking (JStr ''a'')], [],
       Inr \<lparr>thinking_started = True, tool_calls = []\<rparr>)"
    by (simp add: generate_assistant_response_def process_line_def process_document_def
        iterate_parts_def process_part_def example_loads_def doc_thought_def think_open_def)
  have after: "stream_loop example_loads example_dumps [''data: 2'']
        \<lparr>thinking_started = True, tool_calls = []\<rparr> =
      ([Thinking (JStr ''\<newline></think>\<newline>''), Text (JStr ''b'')], [],
       Inr \<lparr>thinking_started = False, tool_calls = []\<rparr>)"
    by (simp add: process_line_def process_document_def iterate_parts_def process_part_def
        example_loads_def doc_text_def think_close_def)
  from malformed_line_skipped [OF bad before after] show ?thesis by simp
qed

section \<open>The request id\<close>

text \<open>
  C4. The claim is that two distinct calls of the request-id generator return different
  ids. The function returns the same string at every call, whatever the state of the
  random source: the two ids of any two calls are equal.
\<close>

theorem generate_request_id_constant:
  "fst (generate_request_id w1) = fst (generate_request_id w2) \<and>
   fst (generate_request_id w1) = ''req_{uuid.uuid4().hex}'' \<and>
   snd (generate_request_id w1) = w1"
  by (simp add: generate_request_id_def)

section \<open>Properties of the token manager\<close>

subsection \<open>Rotation\<close>

text \<open>A candidate that is usable when the loop reaches it is returned, and the cursor moves past it.\<close>

lemma scan_fresh:
  assumes "fresh_at e (ticks s) (accounts ! ((current_token_index s + i) mod length accounts))"
  shows "scan e accounts (i # rest) s =
     (Inr (Some (accounts ! ((current_token_index s + i) mod length accounts))),
      s\<lparr>ticks := Suc (ticks s),
        current_token_index := ((current_token_index s + i) mod length accounts + 1) mod length accounts\<rparr>)"
  using assms by (auto simp: fresh_at_def Let_def split: json.splits)

lemma get_token_fresh:
  assumes "accounts_file s = Contents (JArr xs)" and "xs \<noteq> []"
    and "fresh_at e (ticks s) (xs ! (current_token_index s mod length xs))"
  shows "get_token e s =
     (Inr (Some (xs ! (current_token_index s mod length xs))),
      s\<lparr>ticks := Suc (ticks s),
        current_token_index := (current_token_index s + 1) mod length xs\<rparr>)"
proof -
  have "[0..<length xs] = 0 # [1..<length xs]"
    using assms(2) by (simp add: upt_conv_Cons)
  then show ?thesis
    using assms scan_fresh [of e s xs 0 "[1..<length xs]"]
    by (simp add: get_token_def read_accounts_def mod_Suc_eq)
qed

text \<open>The offsets \<open>0, ..., N - 1\<close> from any cursor visit every index once.\<close>

lemma rotation_indices:
  fixes c N :: nat
  assumes "0 < N"
  shows "distinct (map (\<lambda>k. (c + k) mod N) [0..<N]) \<and>
         set (map (\<lambda>k. (c + k) mod N) [0..<N]) = {0..<N}"
proof -
  have inj: "inj_on (\<lambda>k. (c + k) mod N) {0..<N}"
  proof (rule inj_onI)
    fix j k
    assume jk: "j \<in> {0..<N}" "k \<in> {0..<N}" and eq: "(c + j) mod N = (c + k) mod N"
    have le: "a = b" if "a \<le> b" "b < N" "(c + a) mod N = (c + b) mod N" for a b
    proof -
      have "N dvd (c + b) - (c + a)"
        using that mod_eq_dvd_iff_nat [of "c + a" "c + b" N] by simp
      then have "N dvd b - a" by simp
      moreover have "b - a < N" using that by simp
      ultimately have "b - a = 0" using nat_dvd_not_less by blast
      then show ?thesis using that by simp
    qed
    show "j = k"
    proof (cases "j \<le> k")
      case True
      then show ?thesis using le [of j k] jk eq by simp
    next
      case False
      then show ?thesis using le [of k j] jk eq by simp
    qed
  qed
  have d: "distinct (map (\<lambda>k. (c + k) mod N) [0..<N])"
    using inj by (simp add: distinct_map)
  have "set (map (\<lambda>k. (c + k) mod N) [0..<N]) \<subseteq> {0..<N}"
    using assms by auto
  moreover have "card (set (map (\<lambda>k. (c + k) mod N) [0..<N])) = N"
    using d distinct_card by fastforce
  ultimately have "set (map (\<lambda>k. (c + k) mod N) [0..<N]) = {0..<N}"
    by (simp add: card_subset_eq)
  with d show ?thesis by simp
qed

text \<open>
  Any number of calls on a pool that stays usable: the \<open>k\<close>-th call returns the
  credential \<open>k\<close> places after the cursor and reads the clock once.
\<close>

lemma get_tokens_rotation:
  assumes "accounts_file s = Contents (JArr xs)" and "xs \<noteq> []"
    and "\<forall>a \<in> set xs. \<forall>k < n. fresh_at e (ticks s + k) a"
  shows "get_tokens e n s =
     (map (\<lambda>k. Inr (Some (xs ! ((current_token_index s + k) mod length xs)))) [0..<n],
      s\<lparr>ticks := ticks s + n,
        current_token_index :=
          (if n = 0 then current_token_index s else (current_token_index s + n) mod length xs)\<rparr>)"
  using assms
proof (induction n arbitrary: s)
  case 0
  then show ?case by simp
next
  case (Suc n)
  let ?c = "current_token_index s"
  let ?N = "length xs"
  let ?s' = "s\<lparr>ticks := Suc (ticks s), current_token_index := (?c + 1) mod ?N\<rparr>"
  have in_set: "xs ! (?c mod ?N) \<in> set xs"
    using Suc.prems(2) by simp
  have first: "get_token e s = (Inr (Some (xs ! (?c mod ?N))), ?s')"
    using get_token_fresh [OF Suc.prems(1,2)] Suc.prems(3) in_set by force
  have fresh': "\<forall>a \<in> set xs. \<forall>k < n. fresh_at e (ticks ?s' + k) a"
  proof (intro ballI allI impI)
    fix a k
    assume "a \<in> set xs" and "k < n"
    then have "fresh_at e (ticks s + Suc k) a"
      using Suc.prems(3) by (meson Suc_less_eq)
    then show "fresh_at e (ticks ?s' + k) a" by simp
  qed
  have rest: "get_tokens e n ?s' =
     (map (\<lambda>k. Inr (Some (xs ! ((current_token_index ?s' + k) mod ?N)))) [0..<n],
      ?s'\<lparr>ticks := ticks ?s' + n,
        current_token_index :=
          (if n = 0 then current_token_index ?s' else (current_token_index ?s' + n) mod ?N)\<rparr>)"
    using Suc.IH [of ?s'] Suc.prems(1,2) fresh' by simp
  have idx: "(Suc ?c mod ?N + k) mod ?N = Suc (?c + k) mod ?N" for k
    by (simp add: mod_simps)
  have shift: "map (\<lambda>k. Inr (Some (xs ! ((?c + k) mod ?N))) :: py_error + json option) [0..<Suc n] =
      Inr (Some (xs ! (?c mod ?N))) # map (\<lambda>k. Inr (Some (xs ! ((?c + Suc k) mod ?N)))) [0..<n]"
    by (simp add: upt_conv_Cons map_Suc_upt [symmetric] del: upt_Suc)
  show ?case
    by (simp only: get_tokens.simps first rest shift prod.case) (simp add: idx)
qed

text \<open>
  C2. On a pool of \<open>N\<close> credentials that are all not disabled and not expired at the
  clock reads of the calls, and from a cursor \<open>c < N\<close>: the first \<open>n \<le> N\<close> calls of
  \<^verbatim>\<open>get_token\<close> return the credentials at \<open>c, c + 1, ...\<close> modulo \<open>N\<close>, each
  call reads the clock once and touches neither file nor log, and after \<open>n\<close> calls
  the cursor is \<open>(c + n) mod N\<close>, one past the index returned last. The indices of
  \<open>N\<close> calls are pairwise different and are all of \<open>0, ..., N - 1\<close>: each credential
  is returned exactly once.
\<close>

theorem rotation_fairness:
  assumes "accounts_file s = Contents (JArr xs)"
    and "current_token_index s < length xs"
    and "\<forall>a \<in> set xs. \<forall>k < length xs. fresh_at e (ticks s + k) a"
  shows "(\<forall>n \<le> length xs. get_tokens e n s =
       (map (\<lambda>k. Inr (Some (xs ! ((current_token_index s + k) mod length xs)))) [0..<n],
        s\<lparr>ticks := ticks s + n,
          current_token_index := (current_token_index s + n) mod length xs\<rparr>)) \<and>
     distinct (map (\<lambda>k. (current_token_index s + k) mod length xs) [0..<length xs]) \<and>
     set (map (\<lambda>k. (current_token_index s + k) mod length xs) [0..<length xs]) = {0..<length xs}"
proof (intro conjI allI impI)
  let ?c = "current_token_index s"
  let ?N = "length xs"
  have ne: "xs \<noteq> []" using assms(2) by auto
  fix n assume "n \<le> ?N"
  then have "\<forall>a \<in> set xs. \<forall>k < n. fresh_at e (ticks s + k) a"
    using assms(3) by auto
  from get_tokens_rotation [OF assms(1) ne this]
  show "get_tokens e n s =
       (map (\<lambda>k. Inr (Some (xs ! ((?c + k) mod ?N)))) [0..<n],
        s\<lparr>ticks := ticks s + n, current_token_index := (?c + n) mod ?N\<rparr>)"
    using assms(2) by (cases "n = 0") simp_all
next
  have "0 < length xs" using assms(2) by (cases xs) simp_all
  from rotation_indices [OF this, of "current_token_index s"]
  show "distinct (map (\<lambda>k. (current_token_index s + k) mod length xs) [0..<length xs])"
    and "set (map (\<lambda>k. (current_token_index s + k) mod length xs) [0..<length xs]) = {0..<length xs}"
    by simp_all
qed

theorem rotation_fairness_witness:
  "get_tokens (failing_env 2000) 2 example_state =
     ([Inr (Some account_b), Inr (Some account_a)],
      example_state\<lparr>ticks := 2, current_token_index := 1\<rparr>) \<and>
   get_tokens (failing_env 2000) 1 example_state =
     ([Inr (Some account_b)], example_state\<lparr>ticks := 1, current_token_index := 0\<rparr>)"
proof -
  have pool: "accounts_file example_state = Contents (JArr [account_a, account_b])"
    and cursor: "current_token_index example_state < length [account_a, account_b]"
    by (simp_all add: example_state_def)
  have fresh: "\<forall>a \<in> set [account_a, account_b]. \<forall>k < length [account_a, account_b].
      fresh_at (failing_env 2000) (ticks example_state + k) a"
    by (simp add: fresh_at_def is_expired_def account_a_def account_b_def failing_env_def)
  note calls = rotation_fairness [OF pool cursor fresh, THEN conjunct1, rule_format]
  have two: "[0..<2] = [0, Suc 0]" and one: "[0..<1] = [0]"
    by (simp_all add: upt_conv_Cons)
  have "get_tokens (failing_env 2000) 2 example_state =
     ([Inr (Some account_b), Inr (Some account_a)],
      example_state\<lparr>ticks := 2, current_token_index := 1\<rparr>)"
    using calls [of 2] by (simp add: two example_state_def mod_Suc)
  moreover have "get_tokens (failing_env 2000) 1 example_state =
     ([Inr (Some account_b)], example_state\<lparr>ticks := 1, current_token_index := 0\<rparr>)"
    using calls [of 1] by (simp add: one example_state_def mod_Suc)
  ultimately show ?thesis by simp
qed

subsection \<open>Expiry and refresh\<close>

text \<open>What a call of \<^verbatim>\<open>_refresh_token\<close> leaves alone, and what it logs first.\<close>

lemma refresh_token_frame:
  assumes "refresh_token e a s = (r, s1)"
  shows "accounts_file s1 = accounts_file s \<and> current_token_index s1 = current_token_index s \<and>
     disk s1 = disk s \<and> ticks s \<le> ticks s1 \<and> posts s \<le> posts s1 \<and>
     (\<exists>rest. log s1 = log s @ RefreshAttempt # rest)"
  using assms
  by (auto simp: refresh_token_def add_log_def Let_def
      split: json.splits if_splits http_result.splits option.splits sum.splits)

lemma refresh_token_None:
  assumes "refresh_token e (JObj kvs) s = (Inr None, s1)"
  shows "ticks s1 = ticks s \<and>
     (\<not> truthy (case map_of kvs ''refresh_token'' of Some v \<Rightarrow> v | None \<Rightarrow> JNull) \<or>
      posts s1 = Suc (posts s) \<and>
      (\<exists>resp. post_at e (posts s)
          (case map_of kvs ''refresh_token'' of Some v \<Rightarrow> v | None \<Rightarrow> JNull) = RequestException resp))"
  using assms
  by (auto simp: refresh_token_def add_log_def Let_def
      split: if_splits http_result.splits option.splits sum.splits)

text \<open>The causes of a refresh that returns \<^verbatim>\<open>None\<close>: they are sufficient.\<close>

lemma refresh_token_fails:
  assumes "\<not> truthy (case map_of kvs ''refresh_token'' of Some v \<Rightarrow> v | None \<Rightarrow> JNull) \<or>
      (\<exists>resp. post_at e (posts s)
          (case map_of kvs ''refresh_token'' of Some v \<Rightarrow> v | None \<Rightarrow> JNull) = RequestException resp)"
  shows "\<exists>s1. refresh_token e (JObj kvs) s = (Inr None, s1)"
  using assms
  by (auto simp: refresh_token_def add_log_def Let_def split: option.splits)

lemma write_accounts_frame:
  "current_token_index (write_accounts j s) = current_token_index s \<and>
   disk (write_accounts j s) = disk s \<and>
   ticks (write_accounts j s) = ticks s \<and> posts (write_accounts j s) = posts s \<and>
   (\<exists>rest. log (write_accounts j s) = log s @ rest) \<and>
   (disk s = Writable \<and> accounts_file (write_accounts j s) = Contents j \<or>
    disk s = OpenFails \<and> accounts_file (write_accounts j s) = accounts_file s \<or>
    disk s = WriteFails \<and> accounts_file (write_accounts j s) = Unreadable)"
  by (cases "disk s") (simp_all add: write_accounts_def add_log_def)

text \<open>One step of the loop, by the cases of the candidate.\<close>

lemma scan_step_cases:
  assumes "scan e xs (i # rest) s = (r, s')"
    and "a = xs ! ((current_token_index s + i) mod length xs)"
  obtains
    (not_dict) "\<forall>kvs. a \<noteq> JObj kvs" "r = Inl AttributeError" "s' = s"
  | (disabled) kvs where "a = JObj kvs"
      "truthy (case map_of kvs ''disabled'' of Some v \<Rightarrow> v | None \<Rightarrow> JNull)"
      "scan e xs rest s = (r, s')"
  | (type_error) kvs err where "a = JObj kvs"
      "\<not> truthy (case map_of kvs ''disabled'' of Some v \<Rightarrow> v | None \<Rightarrow> JNull)"
      "is_expired kvs (time_at e (ticks s)) = Inl err" "r = Inl err" "s' = s"
  | (valid) kvs where "a = JObj kvs"
      "\<not> truthy (case map_of kvs ''disabled'' of Some v \<Rightarrow> v | None \<Rightarrow> JNull)"
      "is_expired kvs (time_at e (ticks s)) = Inr False" "r = Inr (Some a)"
      "s' = s\<lparr>ticks := Suc (ticks s),
              current_token_index := ((current_token_index s + i) mod length xs + 1) mod length xs\<rparr>"
  | (refresh_raised) kvs err where "a = JObj kvs"
      "\<not> truthy (case map_of kvs ''disabled'' of Some v \<Rightarrow> v | None \<Rightarrow> JNull)"
      "is_expired kvs (time_at e (ticks s)) = Inr True"
      "refresh_token e a (s\<lparr>ticks := Suc (ticks s)\<rparr>) = (Inl err, s')" "r = Inl err"
  | (refreshed) kvs acc s1 where "a = JObj kvs"
      "\<not> truthy (case map_of kvs ''disabled'' of Some v \<Rightarrow> v | None \<Rightarrow> JNull)"
      "is_expired kvs (time_at e (ticks s)) = Inr True"
      "refresh_token e a (s\<lparr>ticks := Suc (ticks s)\<rparr>) = (Inr (Some acc), s1)"
      "r = Inr (Some acc)"
      "s' = (write_accounts (JArr (xs[(current_token_index s + i) mod length xs := acc])) s1)
              \<lparr>current_token_index := ((current_token_index s + i) mod length xs + 1) mod length xs\<rparr>"
  | (refresh_failed) kvs s1 where "a = JObj kvs"
      "\<not> truthy (case map_of kvs ''disabled'' of Some v \<Rightarrow> v | None \<Rightarrow> JNull)"
      "is_expired kvs (time_at e (ticks s)) = Inr True"
      "refresh_token e a (s\<lparr>ticks := Suc (ticks s)\<rparr>) = (Inr None, s1)"
      "scan e xs rest (add_log (WillTryNext
          (case map_of kvs ''refresh_token'' of Some v \<Rightarrow> v | None \<Rightarrow> JNull)) s1) = (r, s')"
  using assms
  by (fastforce simp: Let_def split: json.splits if_splits sum.splits bool.splits option.splits prod.splits)


lemma unusable_mono:
  assumes "unusable e s1 s' a" and "ticks s \<le> ticks s1" and "posts s \<le> posts s1"
  shows "unusable e s s' a"
proof (cases a)
  case (JObj kvs)
  let ?rt = "case map_of kvs ''refresh_token'' of Some v \<Rightarrow> v | None \<Rightarrow> JNull"
  show ?thesis
  proof (cases "truthy (case map_of kvs ''disabled'' of Some v \<Rightarrow> v | None \<Rightarrow> JNull)")
    case True
    then show ?thesis by (simp add: unusable_def JObj)
  next
    case False
    with assms(1) JObj obtain t where t: "ticks s1 \<le> t" "t < ticks s'"
        "is_expired kvs (time_at e t) = Inr True"
      and r: "\<not> truthy ?rt \<or> (\<exists>p resp. posts s1 \<le> p \<and> p < posts s' \<and>
              post_at e p ?rt = RequestException resp)"
      by (auto simp: unusable_def)
    have "\<exists>t. ticks s \<le> t \<and> t < ticks s' \<and> is_expired kvs (time_at e t) = Inr True"
      using t assms(2) le_trans by blast
    moreover have "\<not> truthy ?rt \<or> (\<exists>p resp. posts s \<le> p \<and> p < posts s' \<and>
              post_at e p ?rt = RequestException resp)"
      using r assms(3) le_trans by blast
    ultimately show ?thesis
      by (simp add: unusable_def JObj)
  qed
qed (use assms in \<open>simp_all add: unusable_def\<close>)

lemma scan_None:
  assumes "scan e xs cands s = (Inr None, s')"
  shows "accounts_file s' = accounts_file s \<and> current_token_index s' = current_token_index s \<and>
     ticks s \<le> ticks s' \<and> posts s \<le> posts s' \<and>
     (\<forall>i \<in> set cands. unusable e s s' (xs ! ((current_token_index s + i) mod length xs)))"
  using assms
proof (induction cands arbitrary: s)
  case Nil
  then show ?case by (auto simp: add_log_def)
next
  case (Cons i rest)
  let ?a = "xs ! ((current_token_index s + i) mod length xs)"
  have a: "?a = xs ! ((current_token_index s + i) mod length xs)" ..
  from Cons.prems a show ?case
  proof (cases rule: scan_step_cases)
    case (disabled kvs)
    have "unusable e s s' ?a"
      using disabled(1,2) by (simp add: unusable_def)
    with Cons.IH [OF disabled(3)] show ?thesis by simp
  next
    case (refresh_failed kvs s1)
    let ?rt = "case map_of kvs ''refresh_token'' of Some v \<Rightarrow> v | None \<Rightarrow> JNull"
    let ?s2 = "add_log (WillTryNext ?rt) s1"
    note fr = refresh_token_frame [OF refresh_failed(4)]
    note fn = refresh_token_None [OF refresh_failed(4) [unfolded refresh_failed(1)]]
    note ih = Cons.IH [OF refresh_failed(5)]
    have t1: "ticks ?s2 = Suc (ticks s)" and p1: "posts ?s2 = posts s1"
      and c1: "current_token_index ?s2 = current_token_index s"
      and f1: "accounts_file ?s2 = accounts_file s"
      using fr fn by (simp_all add: add_log_def)
    have le: "ticks s \<le> ticks ?s2" "posts s \<le> posts ?s2"
      using t1 p1 fr by simp_all
    have "ticks s \<le> ticks s \<and> ticks s < ticks s' \<and> is_expired kvs (time_at e (ticks s)) = Inr True"
      using ih t1 refresh_failed(3) by simp
    then have expired: "\<exists>t. ticks s \<le> t \<and> t < ticks s' \<and> is_expired kvs (time_at e t) = Inr True"
      by (rule exI)
    have failed: "\<not> truthy ?rt \<or>
        (\<exists>p resp. posts s \<le> p \<and> p < posts s' \<and> post_at e p ?rt = RequestException resp)"
    proof (cases "truthy ?rt")
      case True
      with fn obtain resp where sent: "posts s1 = Suc (posts s)"
        and resp: "post_at e (posts s) ?rt = RequestException resp" by auto
      have "posts s \<le> posts s \<and> posts s < posts s' \<and> post_at e (posts s) ?rt = RequestException resp"
        using ih p1 sent resp by simp
      then show ?thesis by blast
    qed simp
    have here: "unusable e s s' ?a"
      using expired failed by (simp add: unusable_def refresh_failed(1))
    have there: "unusable e s s' (xs ! ((current_token_index s + j) mod length xs))"
      if "j \<in> set rest" for j
    proof -
      have "unusable e ?s2 s' (xs ! ((current_token_index ?s2 + j) mod length xs))"
        using ih that by simp
      then show ?thesis
        using unusable_mono [OF _ le] c1 by simp
    qed
    show ?thesis using ih here there t1 p1 c1 f1 le by simp
  qed simp_all
qed

text \<open>The log only grows during the loop.\<close>

lemma scan_log:
  assumes "scan e xs cands s = (r, s')"
  shows "\<exists>later. log s' = log s @ later"
  using assms
proof (induction cands arbitrary: s)
  case Nil
  then show ?case by (auto simp: add_log_def)
next
  case (Cons i rest)
  let ?j = "(current_token_index s + i) mod length xs"
  have a: "xs ! ?j = xs ! ?j" ..
  from Cons.prems a show ?case
  proof (cases rule: scan_step_cases)
    case (disabled kvs)
    from Cons.IH [OF disabled(3)] show ?thesis .
  next
    case (refresh_raised kvs err)
    from refresh_token_frame [OF refresh_raised(4)] show ?thesis by auto
  next
    case (refreshed kvs acc s1)
    note fr = refresh_token_frame [OF refreshed(4)]
    note wr = write_accounts_frame [of "JArr (xs[?j := acc])" s1]
    from fr wr obtain m1 m2 where "log s1 = log s @ RefreshAttempt # m1"
      and "log (write_accounts (JArr (xs[?j := acc])) s1) = log s1 @ m2" by auto
    then have "log s' = log s @ (RefreshAttempt # m1 @ m2)"
      by (simp add: refreshed(6))
    then show ?thesis ..
  next
    case (refresh_failed kvs s1)
    let ?s2 = "add_log (WillTryNext
        (case map_of kvs ''refresh_token'' of Some v \<Rightarrow> v | None \<Rightarrow> JNull)) s1"
    note fr = refresh_token_frame [OF refresh_failed(4)]
    note ih = Cons.IH [OF refresh_failed(5)]
    from fr obtain m1 where "log ?s2 = log s @ (RefreshAttempt # m1 @
        [WillTryNext (case map_of kvs ''refresh_token'' of Some v \<Rightarrow> v | None \<Rightarrow> JNull)])"
      by (auto simp: add_log_def)
    moreover from ih obtain m2 where "log s' = log ?s2 @ m2" by auto
    ultimately show ?thesis by simp
  qed simp_all
qed

lemma scan_expired_log:
  assumes "scan e xs (i # rest) s = (r, s')"
    and "xs ! ((current_token_index s + i) mod length xs) = JObj kvs"
    and "\<not> truthy (case map_of kvs ''disabled'' of Some v \<Rightarrow> v | None \<Rightarrow> JNull)"
    and "is_expired kvs (time_at e (ticks s)) = Inr True"
  shows "\<exists>more. log s' = log s @ RefreshAttempt # more"
proof -
  let ?j = "(current_token_index s + i) mod length xs"
  have a: "xs ! ?j = xs ! ?j" ..
  from assms(1) a show ?thesis
  proof (cases rule: scan_step_cases)
    case (refresh_raised kvs' err)
    from refresh_token_frame [OF refresh_raised(4)] show ?thesis by auto
  next
    case (refreshed kvs' acc s1)
    note fr = refresh_token_frame [OF refreshed(4)]
    note wr = write_accounts_frame [of "JArr (xs[?j := acc])" s1]
    from fr wr obtain m1 m2 where "log s1 = log s @ RefreshAttempt # m1"
      and "log (write_accounts (JArr (xs[?j := acc])) s1) = log s1 @ m2" by auto
    then have "log s' = log s @ RefreshAttempt # (m1 @ m2)"
      by (simp add: refreshed(6))
    then show ?thesis ..
  next
    case (refresh_failed kvs' s1)
    let ?s2 = "add_log (WillTryNext
        (case map_of kvs' ''refresh_token'' of Some v \<Rightarrow> v | None \<Rightarrow> JNull)) s1"
    from refresh_token_frame [OF refresh_failed(4)] obtain m1
      where "log ?s2 = log s @ RefreshAttempt # (m1 @
        [WillTryNext (case map_of kvs' ''refresh_token'' of Some v \<Rightarrow> v | None \<Rightarrow> JNull)])"
      by (auto simp: add_log_def)
    moreover from scan_log [OF refresh_failed(5)] obtain m2
      where "log s' = log ?s2 @ m2" by auto
    ultimately have "log s' = log s @ RefreshAttempt # (m1 @
        [WillTryNext (case map_of kvs' ''refresh_token'' of Some v \<Rightarrow> v | None \<Rightarrow> JNull)] @ m2)"
      by simp
    then show ?thesis ..
  qed (use assms(2-4) in simp_all)
qed

text \<open>Disabled candidates are passed over without a trace.\<close>

lemma scan_skip_disabled:
  assumes "\<forall>k \<in> set skipped. \<exists>kvs. xs ! ((current_token_index s + k) mod length xs) = JObj kvs \<and>
      truthy (case map_of kvs ''disabled'' of Some v \<Rightarrow> v | None \<Rightarrow> JNull)"
  shows "scan e xs (skipped @ rest) s = scan e xs rest s"
  using assms by (induction skipped) (auto simp: Let_def)

text \<open>The step of the loop at a candidate that is found expired, and at one that is not.\<close>

lemma scan_step_expired:
  assumes "xs ! ((current_token_index s + i) mod length xs) = JObj kvs"
    and "\<not> truthy (case map_of kvs ''disabled'' of Some v \<Rightarrow> v | None \<Rightarrow> JNull)"
    and "is_expired kvs (time_at e (ticks s)) = Inr True"
  shows "scan e xs (i # rest) s =
     (case refresh_token e (JObj kvs) (s\<lparr>ticks := Suc (ticks s)\<rparr>) of
        (Inl err, s1) \<Rightarrow> (Inl err, s1)
      | (Inr (Some refreshed_account), s1) \<Rightarrow>
          (Inr (Some refreshed_account),
           (write_accounts
              (JArr (xs[(current_token_index s + i) mod length xs := refreshed_account])) s1)
             \<lparr>current_token_index := ((current_token_index s + i) mod length xs + 1) mod length xs\<rparr>)
      | (Inr None, s1) \<Rightarrow>
          scan e xs rest
            (add_log (WillTryNext
               (case map_of kvs ''refresh_token'' of Some v \<Rightarrow> v | None \<Rightarrow> JNull)) s1))"
  using assms by (simp add: Let_def)

lemma scan_step_valid:
  assumes "xs ! ((current_token_index s + i) mod length xs) = JObj kvs"
    and "\<not> truthy (case map_of kvs ''disabled'' of Some v \<Rightarrow> v | None \<Rightarrow> JNull)"
    and "is_expired kvs (time_at e (ticks s)) = Inr False"
  shows "scan e xs (i # rest) s =
     (Inr (Some (JObj kvs)),
      s\<lparr>ticks := Suc (ticks s),
        current_token_index := ((current_token_index s + i) mod length xs + 1) mod length xs\<rparr>)"
  using assms by (simp add: Let_def)

text \<open>
  A loop that returns a credential: the candidates before the returned one were all
  unusable, the cursor is one past the returned index, and the file is as before or
  differs in the entry of that index alone, unless the write failed midway.
\<close>

lemma scan_Some:
  assumes "scan e xs cands s = (Inr (Some acc), s')"
  shows "ticks s \<le> ticks s' \<and> posts s \<le> posts s' \<and>
     (\<exists>m < length cands.
        (\<forall>n < m. unusable e s s' (xs ! ((current_token_index s + cands ! n) mod length xs))) \<and>
        current_token_index s' =
          ((current_token_index s + cands ! m) mod length xs + 1) mod length xs \<and>
        (acc = xs ! ((current_token_index s + cands ! m) mod length xs) \<and>
           accounts_file s' = accounts_file s \<or>
         disk s = Writable \<and>
           accounts_file s' =
             Contents (JArr (xs[(current_token_index s + cands ! m) mod length xs := acc])) \<or>
         disk s = OpenFails \<and> accounts_file s' = accounts_file s \<or>
         disk s = WriteFails \<and> accounts_file s' = Unreadable))"
  using assms
proof (induction cands arbitrary: s)
  case Nil
  then show ?case by simp
next
  case (Cons i rest)
  let ?j = "(current_token_index s + i) mod length xs"
  have a: "xs ! ?j = xs ! ?j" ..
  from Cons.prems a show ?case
  proof (cases rule: scan_step_cases)
    case (disabled kvs)
    from Cons.IH [OF disabled(3)] obtain m where m: "m < length rest"
      "\<forall>n < m. unusable e s s' (xs ! ((current_token_index s + rest ! n) mod length xs))"
      "current_token_index s' = ((current_token_index s + rest ! m) mod length xs + 1) mod length xs"
      "acc = xs ! ((current_token_index s + rest ! m) mod length xs) \<and>
           accounts_file s' = accounts_file s \<or>
         disk s = Writable \<and>
           accounts_file s' =
             Contents (JArr (xs[(current_token_index s + rest ! m) mod length xs := acc])) \<or>
         disk s = OpenFails \<and> accounts_file s' = accounts_file s \<or>
         disk s = WriteFails \<and> accounts_file s' = Unreadable"
      and le: "ticks s \<le> ticks s'" "posts s \<le> posts s'"
      by blast
    have here: "unusable e s s' (xs ! ?j)"
      using disabled(1,2) by (simp add: unusable_def)
    have before: "unusable e s s' (xs ! ((current_token_index s + (i # rest) ! n) mod length xs))"
      if "n < Suc m" for n
      using that here m(2) by (cases n) simp_all
    have "Suc m < length (i # rest)" using m(1) by simp
    moreover have "\<forall>n < Suc m.
        unusable e s s' (xs ! ((current_token_index s + (i # rest) ! n) mod length xs))"
      using before by blast
    ultimately show ?thesis
      using m(3,4) le by (intro conjI exI [of _ "Suc m"]) simp_all
  next
    case (valid kvs)
    then show ?thesis
      by (intro conjI exI [of _ 0]) simp_all
  next
    case (refreshed kvs acc' s1)
    note fr = refresh_token_frame [OF refreshed(4)]
    note wr = write_accounts_frame [of "JArr (xs[?j := acc'])" s1]
    have "acc' = acc" using refreshed(5) by simp
    with fr wr refreshed(6) show ?thesis
      by (intro conjI exI [of _ 0]) auto
  next
    case (refresh_failed kvs s1)
    let ?rt = "case map_of kvs ''refresh_token'' of Some v \<Rightarrow> v | None \<Rightarrow> JNull"
    let ?s2 = "add_log (WillTryNext ?rt) s1"
    note fr = refresh_token_frame [OF refresh_failed(4)]
    note fn = refresh_token_None [OF refresh_failed(4) [unfolded refresh_failed(1)]]
    have t1: "ticks ?s2 = Suc (ticks s)" and p1: "posts ?s2 = posts s1"
      and c1: "current_token_index ?s2 = current_token_index s"
      and f1: "accounts_file ?s2 = accounts_file s" and d1: "disk ?s2 = disk s"
      using fr fn by (simp_all add: add_log_def)
    have le2: "ticks s \<le> ticks ?s2" "posts s \<le> posts ?s2"
      using t1 p1 fr by simp_all
    from Cons.IH [OF refresh_failed(5)] obtain m where m: "m < length rest"
      "\<forall>n < m. unusable e ?s2 s' (xs ! ((current_token_index ?s2 + rest ! n) mod length xs))"
      "current_token_index s' = ((current_token_index ?s2 + rest ! m) mod length xs + 1) mod length xs"
      "acc = xs ! ((current_token_index ?s2 + rest ! m) mod length xs) \<and>
           accounts_file s' = accounts_file ?s2 \<or>
         disk ?s2 = Writable \<and>
           accounts_file s' =
             Contents (JArr (xs[(current_token_index ?s2 + rest ! m) mod length xs := acc])) \<or>
         disk ?s2 = OpenFails \<and> accounts_file s' = accounts_file ?s2 \<or>
         disk ?s2 = WriteFails \<and> accounts_file s' = Unreadable"
      and le: "ticks ?s2 \<le> ticks s'" "posts ?s2 \<le> posts s'"
      by blast
    have "ticks s \<le> ticks s \<and> ticks s < ticks s' \<and> is_expired kvs (time_at e (ticks s)) = Inr True"
      using le t1 refresh_failed(3) by simp
    then have expired: "\<exists>t. ticks s \<le> t \<and> t < ticks s' \<and> is_expired kvs (time_at e t) = Inr True"
      by (rule exI)
    have failed: "\<not> truthy ?rt \<or>
        (\<exists>p resp. posts s \<le> p \<and> p < posts s' \<and> post_at e p ?rt = RequestException resp)"
    proof (cases "truthy ?rt")
      case True
      with fn obtain resp where sent: "posts s1 = Suc (posts s)"
        and resp: "post_at e (posts s) ?rt = RequestException resp" by auto
      have "posts s \<le> posts s \<and> posts s < posts s' \<and> post_at e (posts s) ?rt = RequestException resp"
        using le p1 sent resp by simp
      then show ?thesis by blast
    qed simp
    have here: "unusable e s s' (xs ! ?j)"
      using expired failed by (simp add: unusable_def refresh_failed(1))
    have before: "unusable e s s' (xs ! ((current_token_index s + (i # rest) ! n) mod length xs))"
      if "n < Suc m" for n
    proof (cases n)
      case 0
      then show ?thesis using here by simp
    next
      case (Suc n')
      with that m(2) have "unusable e ?s2 s' (xs ! ((current_token_index ?s2 + rest ! n') mod length xs))"
        by simp
      from unusable_mono [OF this le2] show ?thesis using Suc c1 by simp
    qed
    have "Suc m < length (i # rest)" using m(1) by simp
    moreover have "\<forall>n < Suc m.
        unusable e s s' (xs ! ((current_token_index s + (i # rest) ! n) mod length xs))"
      using before by blast
    moreover have "ticks s \<le> ticks s'" "posts s \<le> posts s'"
      using le le2 by simp_all
    ultimately show ?thesis
      using m(3,4) c1 f1 d1 by (intro conjI exI [of _ "Suc m"]) simp_all
  qed simp_all
qed

text \<open>A loop that ends with an exception has left the file and the cursor alone.\<close>

lemma scan_Inl:
  assumes "scan e xs cands s = (Inl err, s')"
  shows "accounts_file s' = accounts_file s \<and> current_token_index s' = current_token_index s"
  using assms
proof (induction cands arbitrary: s)
  case Nil
  then show ?case by simp
next
  case (Cons i rest)
  have a: "xs ! ((current_token_index s + i) mod length xs) =
      xs ! ((current_token_index s + i) mod length xs)" ..
  from Cons.prems a show ?case
  proof (cases rule: scan_step_cases)
    case (disabled kvs)
    from Cons.IH [OF disabled(3)] show ?thesis .
  next
    case (refresh_raised kvs err')
    from refresh_token_frame [OF refresh_raised(4)] show ?thesis by simp
  next
    case (refresh_failed kvs s1)
    from refresh_token_frame [OF refresh_failed(4)] Cons.IH [OF refresh_failed(5)]
    show ?thesis by (simp add: add_log_def)
  qed simp_all
qed

text \<open>
  C6. A call reaches its candidate at offset \<open>i\<close> from the cursor after passing over
  disabled ones; the candidate is not disabled and its fields read as the integers
  \<open>issued\<close> and \<open>expires\<close>. For every value \<open>now\<close> of the clock the check of line 104
  is \<open>issued + expires - 60 < now\<close>: it holds at a remaining lifetime of 59 seconds and
  fails at one of 61. Where it holds at the clock read of the call, the call goes on
  with \<^verbatim>\<open>_refresh_token\<close> and what it returns, and the next thing it logs is the
  attempt to refresh. Where it fails, the call returns the credential as it is, reads
  the clock once, moves the cursor past the credential, and neither posts nor logs nor
  writes.
\<close>

theorem expiry_buffer:
  assumes "accounts_file s = Contents (JArr xs)" and "i < length xs"
    and "\<forall>k < i. \<exists>kvs'. xs ! ((current_token_index s + k) mod length xs) = JObj kvs' \<and>
           truthy (case map_of kvs' ''disabled'' of Some v \<Rightarrow> v | None \<Rightarrow> JNull)"
    and "xs ! ((current_token_index s + i) mod length xs) = JObj kvs"
    and "\<not> truthy (case map_of kvs ''disabled'' of Some v \<Rightarrow> v | None \<Rightarrow> JNull)"
    and "py_number (case map_of kvs ''timestamp'' of Some v \<Rightarrow> v | None \<Rightarrow> JInt 0) = Some issued"
    and "py_number (case map_of kvs ''expires_in'' of Some v \<Rightarrow> v | None \<Rightarrow> JInt 0) = Some expires"
  shows "is_expired kvs now = Inr (real_of_int (issued + expires - 60) < now) \<and>
     (real_of_int (issued + expires) - now = 59 \<longrightarrow> is_expired kvs now = Inr True) \<and>
     (real_of_int (issued + expires) - now = 61 \<longrightarrow> is_expired kvs now = Inr False) \<and>
     (is_expired kvs (time_at e (ticks s)) = Inr True \<longrightarrow>
        get_token e s =
          (case refresh_token e (JObj kvs) (s\<lparr>ticks := Suc (ticks s)\<rparr>) of
             (Inl err, s1) \<Rightarrow> (Inl err, s1)
           | (Inr (Some refreshed_account), s1) \<Rightarrow>
               (Inr (Some refreshed_account),
                (write_accounts
                   (JArr (xs[(current_token_index s + i) mod length xs := refreshed_account])) s1)
                  \<lparr>current_token_index :=
                     ((current_token_index s + i) mod length xs + 1) mod length xs\<rparr>)
           | (Inr None, s1) \<Rightarrow>
               scan e xs [Suc i..<length xs]
                 (add_log (WillTryNext
                    (case map_of kvs ''refresh_token'' of Some v \<Rightarrow> v | None \<Rightarrow> JNull)) s1)) \<and>
        (\<exists>later. log (snd (get_token e s)) = log s @ RefreshAttempt # later)) \<and>
     (is_expired kvs (time_at e (ticks s)) = Inr False \<longrightarrow>
        get_token e s =
          (Inr (Some (JObj kvs)),
           s\<lparr>ticks := Suc (ticks s),
             current_token_index :=
               ((current_token_index s + i) mod length xs + 1) mod length xs\<rparr>))"
proof -
  have check: "is_expired kvs t = Inr (real_of_int (issued + expires - 60) < t)" for t
    using assms(6,7) by (simp add: is_expired_def)
  have ne: "xs \<noteq> []" using assms(2) by auto
  have "[0..<i + (length xs - i)] = [0..<i] @ [i..<i + (length xs - i)]"
    by (rule upt_add_eq_append) simp
  then have cands: "[0..<length xs] = [0..<i] @ i # [Suc i..<length xs]"
    using assms(2) by (simp add: upt_conv_Cons)
  have skipped: "\<forall>k \<in> set [0..<i]. \<exists>kvs'. xs ! ((current_token_index s + k) mod length xs) = JObj kvs' \<and>
      truthy (case map_of kvs' ''disabled'' of Some v \<Rightarrow> v | None \<Rightarrow> JNull)"
    using assms(3) by simp
  have "get_token e s = scan e xs [0..<length xs] s"
    using assms(1) ne by (simp add: get_token_def read_accounts_def)
  also have "\<dots> = scan e xs ([0..<i] @ i # [Suc i..<length xs]) s"
    using cands by simp
  also have "\<dots> = scan e xs (i # [Suc i..<length xs]) s"
    by (rule scan_skip_disabled [OF skipped])
  finally have call: "get_token e s = scan e xs (i # [Suc i..<length xs]) s" .
  have expired: "get_token e s =
          (case refresh_token e (JObj kvs) (s\<lparr>ticks := Suc (ticks s)\<rparr>) of
             (Inl err, s1) \<Rightarrow> (Inl err, s1)
           | (Inr (Some refreshed_account), s1) \<Rightarrow>
               (Inr (Some refreshed_account),
                (write_accounts
                   (JArr (xs[(current_token_index s + i) mod length xs := refreshed_account])) s1)
                  \<lparr>current_token_index :=
                     ((current_token_index s + i) mod length xs + 1) mod length xs\<rparr>)
           | (Inr None, s1) \<Rightarrow>
               scan e xs [Suc i..<length xs]
                 (add_log (WillTryNext
                    (case map_of kvs ''refresh_token'' of Some v \<Rightarrow> v | None \<Rightarrow> JNull)) s1))"
    if "is_expired kvs (time_at e (ticks s)) = Inr True"
    unfolding call by (rule scan_step_expired [OF assms(4,5) that])
  have logged: "\<exists>later. log (snd (get_token e s)) = log s @ RefreshAttempt # later"
    if "is_expired kvs (time_at e (ticks s)) = Inr True"
  proof -
    obtain r s' where run: "scan e xs (i # [Suc i..<length xs]) s = (r, s')"
      by (cases "scan e xs (i # [Suc i..<length xs]) s")
    have "snd (get_token e s) = s'"
      by (simp only: call run snd_conv)
    with scan_expired_log [OF run assms(4,5) that] show ?thesis by simp
  qed
  have valid: "get_token e s =
          (Inr (Some (JObj kvs)),
           s\<lparr>ticks := Suc (ticks s),
             current_token_index :=
               ((current_token_index s + i) mod length xs + 1) mod length xs\<rparr>)"
    if "is_expired kvs (time_at e (ticks s)) = Inr False"
    unfolding call by (rule scan_step_valid [OF assms(4,5) that])
  show ?thesis
    using check expired logged valid by (intro conjI impI) simp_all
qed

theorem expiry_buffer_witness:
  "is_expired [(''access_token'', JStr ''B''), (''refresh_token'', JStr ''rb''),
       (''expires_in'', JInt 3600), (''timestamp'', JInt 1000)] 4540 = Inr False \<and>
   (\<exists>later. log (snd (get_token (failing_env 4541) (pool_state account_off 0 Writable))) =
      RefreshAttempt # later) \<and>
   get_token (failing_env 4539) (pool_state account_off 0 Writable) =
     (Inr (Some account_b),
      (pool_state account_off 0 Writable)\<lparr>ticks := 1, current_token_index := 0\<rparr>)"
proof -
  let ?kvs = "[(''access_token'', JStr ''B''), (''refresh_token'', JStr ''rb''),
     (''expires_in'', JInt 3600), (''timestamp'', JInt 1000)]"
  let ?s = "pool_state account_off 0 Writable"
  have pool: "accounts_file ?s = Contents (JArr [account_off, account_b])"
    and offset: "1 < length [account_off, account_b]"
    and passed: "\<forall>k < 1. \<exists>kvs'. [account_off, account_b] !
        ((current_token_index ?s + k) mod length [account_off, account_b]) = JObj kvs' \<and>
        truthy (case map_of kvs' ''disabled'' of Some v \<Rightarrow> v | None \<Rightarrow> JNull)"
    and cand: "[account_off, account_b] !
        ((current_token_index ?s + 1) mod length [account_off, account_b]) = JObj ?kvs"
    and enabled: "\<not> truthy (case map_of ?kvs ''disabled'' of Some v \<Rightarrow> v | None \<Rightarrow> JNull)"
    and issued: "py_number (case map_of ?kvs ''timestamp'' of Some v \<Rightarrow> v | None \<Rightarrow> JInt 0) = Some 1000"
    and expires: "py_number (case map_of ?kvs ''expires_in'' of Some v \<Rightarrow> v | None \<Rightarrow> JInt 0) = Some 3600"
    by (simp_all add: pool_state_def account_b_def account_off_def)
  note buffer = expiry_buffer [OF pool offset passed cand enabled issued expires]
  have "is_expired ?kvs 4540 = Inr False"
    using buffer [of 4540 "failing_env 0", THEN conjunct1] by simp
  moreover have "\<exists>later. log (snd (get_token (failing_env 4541) ?s)) = RefreshAttempt # later"
  proof -
    have "is_expired ?kvs (time_at (failing_env 4541) (ticks ?s)) = Inr True"
      using buffer [of 4541 "failing_env 0", THEN conjunct2, THEN conjunct1]
      by (simp add: failing_env_def)
    from buffer [of 0 "failing_env 4541", THEN conjunct2, THEN conjunct2, THEN conjunct2,
        THEN conjunct1, rule_format, OF this, THEN conjunct2]
    show ?thesis by (simp add: pool_state_def)
  qed
  moreover have "get_token (failing_env 4539) ?s =
     (Inr (Some account_b), ?s\<lparr>ticks := 1, current_token_index := 0\<rparr>)"
  proof -
    have "is_expired ?kvs (time_at (failing_env 4539) (ticks ?s)) = Inr False"
      using buffer [of 4539 "failing_env 0", THEN conjunct2, THEN conjunct2, THEN conjunct1]
      by (simp add: failing_env_def)
    from buffer [of 0 "failing_env 4539", THEN conjunct2, THEN conjunct2, THEN conjunct2,
        THEN conjunct2, rule_format, OF this]
    show ?thesis by (simp add: pool_state_def account_b_def)
  qed
  ultimately show ?thesis by simp
qed

text \<open>
  C7. The claim is that whenever the refresh of a credential fails, the call keeps the
  credential in the pool, goes on with the next candidate, and gives up only after
  every candidate was tried. Two calls show where it fails. In the first the endpoint
  answers the refresh of an expired credential with status 200 and a body without
  \<^verbatim>\<open>access_token\<close>: the call ends with \<^verbatim>\<open>KeyError\<close>, although the next
  credential of the pool is usable. In the second the refresh of the first credential
  is refused, the second credential is refreshed, and the write of the file fails after
  the file was truncated: the call returns the second credential and leaves a file that
  holds no credential any more.
\<close>

theorem refresh_isolation_counterexample:
  "get_token (empty_body_env 4000) (pool_state account_old 0 Writable) =
     (Inl KeyError,
      (pool_state account_old 0 Writable)\<lparr>ticks := 1, posts := 1, log := [RefreshAttempt]\<rparr>) \<and>
   fresh_at (empty_body_env 4000) 1 account_b \<and>
   get_token (selective_env 5000) (pool_state account_a 0 WriteFails) =
     (Inr (Some (JObj [(''access_token'', JStr ''N''), (''refresh_token'', JStr ''rb''),
         (''expires_in'', JInt 3600), (''timestamp'', JInt 5000)])),
      (pool_state account_a 0 WriteFails)
        \<lparr>current_token_index := 0, accounts_file := Unreadable, ticks := 3, posts := 2,
         log := [RefreshAttempt, RefreshFailed, WillTryNext (JStr ''ra''),
                 RefreshAttempt, RefreshSucceeded, WriteError]\<rparr>)"
  by (simp add: get_token_def read_accounts_def pool_state_def account_old_def account_a_def
      account_b_def empty_body_env_def selective_env_def is_expired_def refresh_token_def
      write_accounts_def add_log_def fresh_at_def dict_set_def py_int_def Let_def mod_Suc)

text \<open>
  C7, as amended. A refresh fails when the credential has no refresh token or the
  request raises a \<^verbatim>\<open>RequestException\<close>. First, at a candidate that is found
  expired and whose refresh fails so, \<^verbatim>\<open>_refresh_token\<close> returns
  \<^verbatim>\<open>None\<close>, the file, the cursor and the disk are as before, and the loop goes on
  with the next candidate. Second, when \<^verbatim>\<open>get_token\<close> returns \<^verbatim>\<open>None\<close>
  the file and the cursor are unchanged and every credential of the pool was found
  disabled, or expired with a refresh that failed so, during the call, unless the file
  held no credential at all. Third, when \<^verbatim>\<open>get_token\<close> returns a credential,
  it is the candidate at some offset \<open>i\<close> from the cursor; the candidates at the
  offsets before \<open>i\<close> were found disabled or expired with a failed refresh; the cursor
  is one past the returned index; and the file is as before, or is the old list with
  the returned credential at the returned index and every other entry as it was, or
  is left unreadable by a write that failed after truncating it. Fourth, a call that
  ends with an exception leaves the file and the cursor as they were.
\<close>

theorem refresh_isolation:
  "(xs ! ((current_token_index s + i) mod length xs) = JObj kvs \<and>
    \<not> truthy (case map_of kvs ''disabled'' of Some v \<Rightarrow> v | None \<Rightarrow> JNull) \<and>
    is_expired kvs (time_at e (ticks s)) = Inr True \<and>
    (\<not> truthy (case map_of kvs ''refresh_token'' of Some v \<Rightarrow> v | None \<Rightarrow> JNull) \<or>
     (\<exists>resp. post_at e (posts s)
        (case map_of kvs ''refresh_token'' of Some v \<Rightarrow> v | None \<Rightarrow> JNull) =
          RequestException resp)) \<longrightarrow>
      (\<exists>s1. refresh_token e (JObj kvs) (s\<lparr>ticks := Suc (ticks s)\<rparr>) = (Inr None, s1) \<and>
         accounts_file s1 = accounts_file s \<and> current_token_index s1 = current_token_index s \<and>
         disk s1 = disk s \<and>
         scan e xs (i # rest) s =
           scan e xs rest (add_log (WillTryNext
             (case map_of kvs ''refresh_token'' of Some v \<Rightarrow> v | None \<Rightarrow> JNull)) s1))) \<and>
   (get_token e s = (Inr None, s') \<longrightarrow>
      accounts_file s' = accounts_file s \<and> current_token_index s' = current_token_index s \<and>
      (case accounts_file s of
         Contents (JArr pool) \<Rightarrow> \<forall>a \<in> set pool. unusable e s s' a
       | Contents j \<Rightarrow> \<not> truthy j
       | ReadRaises err \<Rightarrow> False
       | _ \<Rightarrow> True)) \<and>
   (accounts_file s = Contents (JArr xs) \<and> get_token e s = (Inr (Some acc), s') \<longrightarrow>
      (\<exists>i < length xs.
         (\<forall>k < i. unusable e s s' (xs ! ((current_token_index s + k) mod length xs))) \<and>
         current_token_index s' = ((current_token_index s + i) mod length xs + 1) mod length xs \<and>
         (acc = xs ! ((current_token_index s + i) mod length xs) \<and>
            accounts_file s' = accounts_file s \<or>
          disk s = Writable \<and>
            accounts_file s' =
              Contents (JArr (xs[(current_token_index s + i) mod length xs := acc])) \<or>
          disk s = OpenFails \<and> accounts_file s' = accounts_file s \<or>
          disk s = WriteFails \<and> accounts_file s' = Unreadable))) \<and>
   (get_token e s = (Inl err, s') \<longrightarrow>
      accounts_file s' = accounts_file s \<and> current_token_index s' = current_token_index s)"
proof (intro conjI impI)
  let ?rt = "case map_of kvs ''refresh_token'' of Some v \<Rightarrow> v | None \<Rightarrow> JNull"
  assume step: "xs ! ((current_token_index s + i) mod length xs) = JObj kvs \<and>
    \<not> truthy (case map_of kvs ''disabled'' of Some v \<Rightarrow> v | None \<Rightarrow> JNull) \<and>
    is_expired kvs (time_at e (ticks s)) = Inr True \<and>
    (\<not> truthy ?rt \<or> (\<exists>resp. post_at e (posts s) ?rt = RequestException resp))"
  then have cause: "\<not> truthy ?rt \<or>
      (\<exists>resp. post_at e (posts (s\<lparr>ticks := Suc (ticks s)\<rparr>)) ?rt = RequestException resp)"
    by simp
  from refresh_token_fails [OF cause] obtain s1
    where failed: "refresh_token e (JObj kvs) (s\<lparr>ticks := Suc (ticks s)\<rparr>) = (Inr None, s1)" ..
  note fr = refresh_token_frame [OF failed]
  have "scan e xs (i # rest) s = scan e xs rest (add_log (WillTryNext ?rt) s1)"
    using step failed by (simp add: Let_def)
  with failed fr
  show "\<exists>s1. refresh_token e (JObj kvs) (s\<lparr>ticks := Suc (ticks s)\<rparr>) = (Inr None, s1) \<and>
         accounts_file s1 = accounts_file s \<and> current_token_index s1 = current_token_index s \<and>
         disk s1 = disk s \<and>
         scan e xs (i # rest) s = scan e xs rest (add_log (WillTryNext ?rt) s1)"
    by (intro exI [of _ s1]) simp
next
  assume none: "get_token e s = (Inr None, s')"
  show "accounts_file s' = accounts_file s"
    using none scan_None [of e _ _ s s']
    by (auto simp: get_token_def read_accounts_def add_log_def
        split: file_state.splits if_splits json.splits)
  show "current_token_index s' = current_token_index s"
    using none scan_None [of e _ _ s s']
    by (auto simp: get_token_def read_accounts_def add_log_def
        split: file_state.splits if_splits json.splits)
  show "case accounts_file s of
         Contents (JArr pool) \<Rightarrow> \<forall>a \<in> set pool. unusable e s s' a
       | Contents j \<Rightarrow> \<not> truthy j
       | ReadRaises err \<Rightarrow> False
       | _ \<Rightarrow> True"
  proof (cases "accounts_file s")
    case (Contents j)
    show ?thesis
    proof (cases "truthy j")
      case False
      then show ?thesis using Contents by (cases j) simp_all
    next
      case True
      with none Contents obtain pool where pool: "j = JArr pool" "pool \<noteq> []"
        and run: "scan e pool [0..<length pool] s = (Inr None, s')"
        by (cases j) (auto simp: get_token_def read_accounts_def)
      have "unusable e s s' a" if "a \<in> set pool" for a
      proof -
        from that obtain k where k: "k < length pool" "a = pool ! k"
          by (auto simp: in_set_conv_nth)
        have "0 < length pool" using pool(2) by simp
        from rotation_indices [OF this, of "current_token_index s"] k(1)
        have "k \<in> set (map (\<lambda>i. (current_token_index s + i) mod length pool) [0..<length pool])"
          by simp
        then obtain i where "i \<in> set [0..<length pool]"
          and "k = (current_token_index s + i) mod length pool" by auto
        with scan_None [OF run] k(2) show ?thesis by simp
      qed
      then show ?thesis using Contents pool by simp
    qed
  next
    case (ReadRaises err')
    with none show ?thesis by (simp add: get_token_def read_accounts_def)
  qed simp_all
next
  assume "accounts_file s = Contents (JArr xs) \<and> get_token e s = (Inr (Some acc), s')"
  then have pool: "accounts_file s = Contents (JArr xs)"
    and call: "get_token e s = (Inr (Some acc), s')"
    by simp_all
  have ne: "xs \<noteq> []"
    using pool call by (auto simp: get_token_def read_accounts_def)
  then have "scan e xs [0..<length xs] s = (Inr (Some acc), s')"
    using pool call by (simp add: get_token_def read_accounts_def)
  from scan_Some [OF this] obtain m where m: "m < length [0..<length xs]"
    "\<forall>n < m. unusable e s s' (xs ! ((current_token_index s + [0..<length xs] ! n) mod length xs))"
    "current_token_index s' =
       ((current_token_index s + [0..<length xs] ! m) mod length xs + 1) mod length xs"
    "acc = xs ! ((current_token_index s + [0..<length xs] ! m) mod length xs) \<and>
           accounts_file s' = accounts_file s \<or>
         disk s = Writable \<and>
           accounts_file s' =
             Contents (JArr (xs[(current_token_index s + [0..<length xs] ! m) mod length xs := acc])) \<or>
         disk s = OpenFails \<and> accounts_file s' = accounts_file s \<or>
         disk s = WriteFails \<and> accounts_file s' = Unreadable"
    by blast
  have m_less: "m < length xs" using m(1) by simp
  then have at: "[0..<length xs] ! m = m" by simp
  have before: "\<forall>k < m. unusable e s s' (xs ! ((current_token_index s + k) mod length xs))"
  proof (intro allI impI)
    fix k assume "k < m"
    then have "[0..<length xs] ! k = k" using m_less by simp
    with m(2) \<open>k < m\<close> show "unusable e s s' (xs ! ((current_token_index s + k) mod length xs))"
      by (metis)
  qed
  show "\<exists>i < length xs.
         (\<forall>k < i. unusable e s s' (xs ! ((current_token_index s + k) mod length xs))) \<and>
         current_token_index s' = ((current_token_index s + i) mod length xs + 1) mod length xs \<and>
         (acc = xs ! ((current_token_index s + i) mod length xs) \<and>
            accounts_file s' = accounts_file s \<or>
          disk s = Writable \<and>
            accounts_file s' =
              Contents (JArr (xs[(current_token_index s + i) mod length xs := acc])) \<or>
          disk s = OpenFails \<and> accounts_file s' = accounts_file s \<or>
          disk s = WriteFails \<and> accounts_file s' = Unreadable)"
    using m_less before m(3,4) unfolding at by (intro exI [of _ m]) simp
next
  assume raised: "get_token e s = (Inl err, s')"
  show "accounts_file s' = accounts_file s"
    using raised scan_Inl [of e _ _ s err s']
    by (auto simp: get_token_def read_accounts_def add_log_def
        split: file_state.splits if_splits json.splits)
  show "current_token_index s' = current_token_index s"
    using raised scan_Inl [of e _ _ s err s']
    by (auto simp: get_token_def read_accounts_def add_log_def
        split: file_state.splits if_splits json.splits)
qed

theorem refresh_isolation_witness:
  "get_token (selective_env 5000) (pool_state account_a 0 Writable) =
     (Inr (Some (JObj [(''access_token'', JStr ''N''), (''refresh_token'', JStr ''rb''),
         (''expires_in'', JInt 3600), (''timestamp'', JInt 5000)])),
      (pool_state account_a 0 Writable)
        \<lparr>current_token_index := 0,
         accounts_file := Contents (JArr [account_a,
           JObj [(''access_token'', JStr ''N''), (''refresh_token'', JStr ''rb''),
             (''expires_in'', JInt 3600), (''timestamp'', JInt 5000)]]),
         ticks := 3, posts := 2,
         log := [RefreshAttempt, RefreshFailed, WillTryNext (JStr ''ra''),
                 RefreshAttempt, RefreshSucceeded]\<rparr>) \<and>
   unusable (selective_env 5000) (pool_state account_a 0 Writable)
     ((pool_state account_a 0 Writable)
        \<lparr>current_token_index := 0,
         accounts_file := Contents (JArr [account_a,
           JObj [(''access_token'', JStr ''N''), (''refresh_token'', JStr ''rb''),
             (''expires_in'', JInt 3600), (''timestamp'', JInt 5000)]]),
         ticks := 3, posts := 2,
         log := [RefreshAttempt, RefreshFailed, WillTryNext (JStr ''ra''),
                 RefreshAttempt, RefreshSucceeded]\<rparr>)
     account_a"
proof -
  let ?new = "JObj [(''access_token'', JStr ''N''), (''refresh_token'', JStr ''rb''),
         (''expires_in'', JInt 3600), (''timestamp'', JInt 5000)]"
  let ?s = "pool_state account_a 0 Writable"
  let ?final = "?s\<lparr>current_token_index := 0,
         accounts_file := Contents (JArr [account_a, ?new]),
         ticks := 3, posts := 2,
         log := [RefreshAttempt, RefreshFailed, WillTryNext (JStr ''ra''),
                 RefreshAttempt, RefreshSucceeded]\<rparr>"
  have pool: "accounts_file ?s = Contents (JArr [account_a, account_b])"
    by (simp add: pool_state_def)
  have run: "get_token (selective_env 5000) ?s = (Inr (Some ?new), ?final)"
    by (simp add: get_token_def read_accounts_def pool_state_def account_a_def account_b_def
        selective_env_def is_expired_def refresh_token_def write_accounts_def add_log_def
        dict_set_def py_int_def Let_def mod_Suc)
  from refresh_isolation [THEN conjunct2, THEN conjunct2, THEN conjunct1, rule_format,
      OF conjI [OF pool run]]
  obtain i where i: "i < length [account_a, account_b]"
    "\<forall>k < i. unusable (selective_env 5000) ?s ?final
        ([account_a, account_b] ! ((current_token_index ?s + k) mod length [account_a, account_b]))"
    "current_token_index ?final =
       ((current_token_index ?s + i) mod length [account_a, account_b] + 1) mod
         length [account_a, account_b]"
    by blast
  have "i = 1"
  proof (rule ccontr)
    assume "i \<noteq> 1"
    with i(1) have "i = 0" by simp
    with i(3) show False by (simp add: pool_state_def)
  qed
  with i(2) have "unusable (selective_env 5000) ?s ?final account_a"
    by (simp add: pool_state_def)
  with run show ?thesis by simp
qed

section \<open>Properties of the message translator\<close>

subsection \<open>User turns stay homogeneous\<close>

lemma translate_from_append:
  "translate_from loads match_uri (xs @ ys) turns =
     (case translate_from loads match_uri xs turns of
        Inl err \<Rightarrow> Inl err
      | Inr ts \<Rightarrow> translate_from loads match_uri ys ts)"
proof (induction xs arbitrary: turns)
  case Nil
  then show ?case by simp
next
  case (Cons x xs)
  then show ?case by (auto split: sum.splits)
qed

lemma extract_items_no_response:
  assumes "extract_items match_uri items (body, images) = Inr (body', images')"
    and "\<not> list_ex is_function_response images"
  shows "\<not> list_ex is_function_response images'"
  using assms
proof (induction items arbitrary: body images)
  case Nil
  then show ?case by simp
next
  case (Cons item items)
  from Cons.prems show ?case
    by (auto split: json.splits if_splits sum.splits option.splits prod.splits
        dest!: Cons.IH)
qed

lemma extract_images_no_response:
  assumes "extract_images_from_content match_uri content = Inr extracted"
  shows "\<not> list_ex is_function_response (snd extracted)"
proof (cases content)
  case (JArr items)
  with assms have "extract_items match_uri items ([], []) = Inr (fst extracted, snd extracted)"
    by (simp add: extract_images_from_content_def)
  from extract_items_no_response [OF this] show ?thesis by simp
qed (use assms in \<open>auto simp: extract_images_from_content_def\<close>)

lemma handle_user_message_homogeneous:
  assumes "\<forall>t \<in> set turns. homogeneous t" and "\<not> list_ex is_function_response (snd extracted)"
  shows "\<forall>t \<in> set (handle_user_message extracted turns). homogeneous t"
  using assms by (auto simp: handle_user_message_def homogeneous_def)

lemma handle_assistant_message_homogeneous:
  assumes "handle_assistant_message loads message turns = Inr turns'"
    and "\<forall>t \<in> set turns. homogeneous t"
  shows "\<forall>t \<in> set turns'. homogeneous t"
proof -
  have merged: "homogeneous t"
    if "turns \<noteq> []" "role (last turns) = Model"
      "t \<in> set (butlast turns @ [(last turns)\<lparr>parts := parts (last turns) @ ps\<rparr>])" for t ps
  proof -
    from that(3) have "t \<in> set (butlast turns) \<or> t = (last turns)\<lparr>parts := parts (last turns) @ ps\<rparr>"
      by auto
    then show ?thesis
    proof
      assume "t \<in> set (butlast turns)"
      then show ?thesis using assms(2) by (auto dest: in_set_butlastD)
    next
      assume "t = (last turns)\<lparr>parts := parts (last turns) @ ps\<rparr>"
      then show ?thesis using that(2) by (simp add: homogeneous_def)
    qed
  qed
  have appended: "homogeneous t" if "t \<in> set (turns @ [\<lparr>role = Model, parts = ps\<rparr>])" for t ps
    using that assms(2) by (auto simp: homogeneous_def)
  from assms(1) show ?thesis
    using merged appended assms(2)
    by (auto simp: handle_assistant_message_def Let_def
        split: json.splits sum.splits if_splits simp del: set_append butlast_append)
qed

lemma handle_tool_call_homogeneous:
  assumes "handle_tool_call message turns = Inr turns'"
    and "\<forall>t \<in> set turns. homogeneous t"
  shows "\<forall>t \<in> set turns'. homogeneous t"
proof -
  have merged: "homogeneous t"
    if "turns \<noteq> []" "role (last turns) = User" "list_ex is_function_response (parts (last turns))"
      "t \<in> set (butlast turns @ [(last turns)\<lparr>parts := parts (last turns) @ [FunctionResponse i n r]\<rparr>])"
    for t i n r
  proof -
    from that(4) have "t \<in> set (butlast turns) \<or>
        t = (last turns)\<lparr>parts := parts (last turns) @ [FunctionResponse i n r]\<rparr>"
      by auto
    then show ?thesis
    proof
      assume "t \<in> set (butlast turns)"
      then show ?thesis using assms(2) by (auto dest: in_set_butlastD)
    next
      assume t: "t = (last turns)\<lparr>parts := parts (last turns) @ [FunctionResponse i n r]\<rparr>"
      have "homogeneous (last turns)" using assms(2) that(1) by simp
      with that(2,3) have "list_all is_function_response (parts (last turns))"
        by (simp add: homogeneous_def)
      then show ?thesis using t by (simp add: homogeneous_def)
    qed
  qed
  have appended: "homogeneous t"
    if "t \<in> set (turns @ [\<lparr>role = User, parts = [FunctionResponse i n r]\<rparr>])" for t i n r
    using that assms(2) by (auto simp: homogeneous_def)
  from assms(1) show ?thesis
    using merged appended
    by (auto simp: handle_tool_call_def Let_def
        split: json.splits if_splits simp del: set_append butlast_append)
qed

lemma translate_from_step:
  assumes "translate_from loads match_uri (message # rest) turns = Inr result"
  obtains (skipped) "translate_from loads match_uri rest turns = Inr result"
  | (user) content extracted where
      "extract_images_from_content match_uri content = Inr extracted"
      "translate_from loads match_uri rest (handle_user_message extracted turns) = Inr result"
  | (assistant) mid where "handle_assistant_message loads message turns = Inr mid"
      "translate_from loads match_uri rest mid = Inr result"
  | (tool) mid where "handle_tool_call message turns = Inr mid"
      "translate_from loads match_uri rest mid = Inr result"
proof (cases "dict_get message ''role'' JNull")
  case (Inl err)
  with assms show ?thesis by simp
next
  case (Inr r)
  consider "r = JStr ''user'' \<or> r = JStr ''system''" | "r = JStr ''assistant''" | "r = JStr ''tool''"
    | "\<not> (r = JStr ''user'' \<or> r = JStr ''system'')" "r \<noteq> JStr ''assistant''" "r \<noteq> JStr ''tool''"
    by blast
  then show ?thesis
  proof cases
    case 1
    with assms Inr show ?thesis
      by (auto split: sum.splits intro: user)
  next
    case 2
    with assms Inr show ?thesis
      by (auto split: sum.splits intro: assistant)
  next
    case 3
    with assms Inr show ?thesis
      by (auto split: sum.splits intro: tool)
  next
    case 4
    with assms Inr show ?thesis
      by (auto intro: skipped)
  qed
qed

lemma translate_from_homogeneous:
  assumes "translate_from loads match_uri messages turns = Inr result"
    and "\<forall>t \<in> set turns. homogeneous t"
  shows "\<forall>t \<in> set result. homogeneous t"
  using assms
proof (induction messages arbitrary: turns)
  case Nil
  then show ?case by simp
next
  case (Cons message rest)
  from Cons.prems(1) show ?case
  proof (cases rule: translate_from_step)
    case skipped
    from Cons.IH [OF this Cons.prems(2)] show ?thesis .
  next
    case (user content extracted)
    from handle_user_message_homogeneous [OF Cons.prems(2) extract_images_no_response [OF user(1)]]
    show ?thesis by (rule Cons.IH [OF user(2)])
  next
    case (assistant mid)
    from handle_assistant_message_homogeneous [OF assistant(1) Cons.prems(2)]
    show ?thesis by (rule Cons.IH [OF assistant(2)])
  next
    case (tool mid)
    from handle_tool_call_homogeneous [OF tool(1) Cons.prems(2)]
    show ?thesis by (rule Cons.IH [OF tool(2)])
  qed
qed

subsection \<open>The name of a tool result\<close>

lemma translate_one_more:
  assumes "openai_message_to_antigravity loads match_uri before = Inr turns"
  shows "openai_message_to_antigravity loads match_uri (before @ later) =
     translate_from loads match_uri later turns"
  using assms by (simp add: openai_message_to_antigravity_def translate_from_append)

lemma translated_homogeneous:
  assumes "openai_message_to_antigravity loads match_uri before = Inr turns"
  shows "\<forall>t \<in> set turns. homogeneous t"
  using translate_from_homogeneous [of loads match_uri before "[]" turns] assms
  by (simp add: openai_message_to_antigravity_def)

lemma first_match_Some:
  "first_match tool_call_id ps = Some n \<Longrightarrow>
     \<exists>i a. FunctionCall i n a \<in> set ps \<and> py_eq i tool_call_id"
  by (induction tool_call_id ps rule: first_match.induct) (auto split: if_splits)

lemma first_match_None:
  "first_match tool_call_id ps = None \<Longrightarrow> FunctionCall i n a \<in> set ps \<Longrightarrow> \<not> py_eq i tool_call_id"
  by (induction tool_call_id ps rule: first_match.induct) (auto split: if_splits)

lemma find_function_name_no_match:
  assumes "\<forall>t \<in> set ts. role t = Model \<longrightarrow> first_match tool_call_id (parts t) = None"
  shows "find_function_name tool_call_id ts function_name = function_name"
  using assms by (induction ts arbitrary: function_name) (simp_all add: Let_def)

lemma find_function_name_match:
  assumes "\<not> truthy function_name" and "truthy name"
    and "\<forall>t \<in> set ts. role t = Model \<longrightarrow>
           first_match tool_call_id (parts t) = None \<or> first_match tool_call_id (parts t) = Some name"
    and "\<exists>t \<in> set ts. role t = Model \<and> first_match tool_call_id (parts t) = Some name"
  shows "find_function_name tool_call_id ts function_name = name"
  using assms(3,4)
proof (induction ts)
  case Nil
  then show ?case by simp
next
  case (Cons t ts)
  show ?case
  proof (cases "role t = Model \<and> first_match tool_call_id (parts t) = Some name")
    case True
    then show ?thesis using assms(2) by (simp add: Let_def)
  next
    case False
    with Cons.prems have rest: "\<exists>t \<in> set ts. role t = Model \<and> first_match tool_call_id (parts t) = Some name"
      and here: "role t = Model \<longrightarrow> first_match tool_call_id (parts t) = None"
      by auto
    have "find_function_name tool_call_id (t # ts) function_name =
        find_function_name tool_call_id ts function_name"
      using here assms(1) by (cases "role t = Model") (simp_all add: Let_def)
    with Cons.IH rest Cons.prems(1) show ?thesis by simp
  qed
qed


lemma first_match_no_match:
  assumes "\<forall>i n a. FunctionCall i n a \<in> set ps \<longrightarrow> \<not> py_eq i tool_call_id"
  shows "first_match tool_call_id ps = None"
  using assms
proof (induction ps)
  case Nil
  then show ?case by simp
next
  case (Cons p ps)
  then show ?case by (cases p) auto
qed

lemma first_match_append:
  assumes "\<forall>i' n' a'. FunctionCall i' n' a' \<in> set ps1 \<longrightarrow> \<not> py_eq i' tool_call_id"
    and "py_eq i tool_call_id"
  shows "first_match tool_call_id (ps1 @ FunctionCall i n a # ps2) = Some n"
  using assms
proof (induction ps1)
  case Nil
  then show ?case by simp
next
  case (Cons p ps1)
  then show ?case by (cases p) auto
qed

lemma find_function_name_skip:
  assumes "\<not> truthy function_name"
    and "\<forall>t \<in> set skipped. role t = Model \<longrightarrow> first_match tool_call_id (parts t) = None"
  shows "find_function_name tool_call_id (skipped @ rest) function_name =
     find_function_name tool_call_id rest function_name"
  using assms(2) by (induction skipped) (simp_all add: Let_def assms(1))

text \<open>
  The translation of a conversation that ends with a tool turn, from the translation of
  the turns before it (lines 108-138).
\<close>

lemma translate_tool_turn:
  assumes "openai_message_to_antigravity loads match_uri before = Inr turns"
    and "map_of kvs ''role'' = Some (JStr ''tool'')"
  shows "openai_message_to_antigravity loads match_uri (before @ [JObj kvs]) =
     Inr (let tool_call_id = (case map_of kvs ''tool_call_id'' of Some v \<Rightarrow> v | None \<Rightarrow> JNull);
              response = FunctionResponse tool_call_id
                (find_function_name tool_call_id (rev turns) (JStr []))
                (JObj [(''output'', case map_of kvs ''content'' of Some v \<Rightarrow> v | None \<Rightarrow> JNull)])
          in if turns \<noteq> [] \<and> role (last turns) = User \<and>
                list_ex is_function_response (parts (last turns))
             then butlast turns @ [(last turns)\<lparr>parts := parts (last turns) @ [response]\<rparr>]
             else turns @ [\<lparr>role = User, parts = [response]\<rparr>])"
  using assms(2) by (simp add: translate_one_more [OF assms(1)] handle_tool_call_def Let_def)

subsection \<open>Tool calls of consecutive assistant turns\<close>





subsection \<open>Tool results\<close>

text \<open>
  C8. \<open>turns\<close> is the translation of the conversation before a tool turn. The
  function response of the tool turn is appended to the last turn of \<open>turns\<close> exactly
  when that turn is a user turn all of whose parts are function responses; otherwise
  it starts a new user turn at the end. (The source tests whether some part of the last
  user turn is a function response; in a translation every user turn has a part, and
  holds function responses only or none at all.)
\<close>

theorem tool_response_merge:
  assumes "openai_message_to_antigravity loads match_uri before = Inr turns"
    and "map_of kvs ''role'' = Some (JStr ''tool'')"
  shows "openai_message_to_antigravity loads match_uri (before @ [JObj kvs]) =
     Inr (let tool_call_id = (case map_of kvs ''tool_call_id'' of Some v \<Rightarrow> v | None \<Rightarrow> JNull);
              response = FunctionResponse tool_call_id
                (find_function_name tool_call_id (rev turns) (JStr []))
                (JObj [(''output'', case map_of kvs ''content'' of Some v \<Rightarrow> v | None \<Rightarrow> JNull)])
          in if turns \<noteq> [] \<and> role (last turns) = User \<and>
                (\<forall>p \<in> set (parts (last turns)). is_function_response p)
             then butlast turns @ [(last turns)\<lparr>parts := parts (last turns) @ [response]\<rparr>]
             else turns @ [\<lparr>role = User, parts = [response]\<rparr>])"
proof -
  have same: "list_ex is_function_response (parts (last turns)) \<longleftrightarrow>
      (\<forall>p \<in> set (parts (last turns)). is_function_response p)"
    if "turns \<noteq> []" "role (last turns) = User"
  proof -
    have "homogeneous (last turns)"
      using translated_homogeneous [OF assms(1)] that(1) by simp
    with that(2) show ?thesis
      by (auto simp: homogeneous_def list_all_iff list_ex_iff ex_in_conv)
  qed
  show ?thesis
    unfolding translate_tool_turn [OF assms]
    using same by (auto simp: Let_def)
qed

theorem tool_response_merge_witness:
  "openai_message_to_antigravity args_loads no_match
      [assistant_lookup, assistant_search, tool_result, tool_result_search] =
     Inr [\<lparr>role = Model, parts =
            [FunctionCall (JStr ''c1'') (JStr ''lookup'') (JObj []),
             FunctionCall (JStr ''c2'') (JStr ''search'') (JObj [])]\<rparr>,
          \<lparr>role = User, parts =
            [FunctionResponse (JStr ''c1'') (JStr ''lookup'') (JObj [(''output'', JStr ''42'')]),
             FunctionResponse (JStr ''c2'') (JStr ''search'') (JObj [(''output'', JStr ''7'')])]\<rparr>]"
proof -
  have before: "openai_message_to_antigravity args_loads no_match
      [assistant_lookup, assistant_search, tool_result] =
     Inr [\<lparr>role = Model, parts =
            [FunctionCall (JStr ''c1'') (JStr ''lookup'') (JObj []),
             FunctionCall (JStr ''c2'') (JStr ''search'') (JObj [])]\<rparr>,
          \<lparr>role = User, parts =
            [FunctionResponse (JStr ''c1'') (JStr ''lookup'') (JObj [(''output'', JStr ''42'')])]\<rparr>]"
    by (simp add: openai_message_to_antigravity_def handle_assistant_message_def
        handle_tool_call_def convert_tool_call_def parse_arguments_def has_content_def
        is_space_def args_loads_def Let_def assistant_lookup_def assistant_search_def
        tool_result_def)
  have tool: "map_of [(''role'', JStr ''tool''), (''tool_call_id'', JStr ''c2''), (''content'', JStr ''7'')]
      ''role'' = Some (JStr ''tool'')"
    by simp
  from tool_response_merge [OF before tool] show ?thesis
    by (simp add: tool_result_search_def Let_def)
qed

text \<open>
  C5, as stated, fails when a later model turn holds a function call with the same id
  and another name: the scan runs from the last turn to the first and stops at the first
  truthy name. Here the conversation holds a model turn with the call \<open>c1\<close> named
  \<open>lookup\<close>, and the last tool turn for \<open>c1\<close> yields a response named \<open>other\<close>.
\<close>

theorem tool_result_pairing_counterexample:
  "openai_message_to_antigravity args_loads no_match
      [assistant_lookup, tool_result, assistant_other, tool_result] =
    Inr [\<lparr>role = Model, parts = [FunctionCall (JStr ''c1'') (JStr ''lookup'') (JObj [])]\<rparr>,
         \<lparr>role = User, parts =
            [FunctionResponse (JStr ''c1'') (JStr ''lookup'') (JObj [(''output'', JStr ''42'')])]\<rparr>,
         \<lparr>role = Model, parts = [FunctionCall (JStr ''c1'') (JStr ''other'') (JObj [])]\<rparr>,
         \<lparr>role = User, parts =
            [FunctionResponse (JStr ''c1'') (JStr ''other'') (JObj [(''output'', JStr ''42'')])]\<rparr>]"
  by (simp add: openai_message_to_antigravity_def assistant_lookup_def assistant_other_def
      tool_result_def handle_assistant_message_def handle_tool_call_def convert_tool_call_def
      parse_arguments_def has_content_def is_space_def args_loads_def Let_def)

text \<open>
  C5, amended. The translation of the conversation before a tool turn is
  \<open>earlier @ t # later\<close>, where \<open>t\<close> is a model turn whose first function call with the
  id of the tool turn has the non-empty name \<open>name\<close>, and no model turn of \<open>later\<close>
  holds a function call with that id: \<open>t\<close> is the nearest match, looking backward. The
  translation of the whole is then that of the turns before with the function response
  added, and the response carries the id of the tool turn, the name \<open>name\<close> and the
  content of the tool turn as its output. What the turns of \<open>earlier\<close> hold, and what
  follows the call in \<open>t\<close>, does not matter.
\<close>

theorem tool_result_pairing:
  assumes "openai_message_to_antigravity loads match_uri before = Inr (earlier @ t # later)"
    and "map_of kvs ''role'' = Some (JStr ''tool'')"
    and "tool_call_id = (case map_of kvs ''tool_call_id'' of Some v \<Rightarrow> v | None \<Rightarrow> JNull)"
    and "role t = Model" and "parts t = ps1 @ FunctionCall i name a # ps2"
    and "py_eq i tool_call_id" and "truthy name"
    and "\<forall>i' n' a'. FunctionCall i' n' a' \<in> set ps1 \<longrightarrow> \<not> py_eq i' tool_call_id"
    and "\<forall>t' \<in> set later. role t' = Model \<longrightarrow>
           (\<forall>i' n' a'. FunctionCall i' n' a' \<in> set (parts t') \<longrightarrow> \<not> py_eq i' tool_call_id)"
  shows "openai_message_to_antigravity loads match_uri (before @ [JObj kvs]) =
     Inr (let turns = earlier @ t # later;
              response = FunctionResponse tool_call_id name
                (JObj [(''output'', case map_of kvs ''content'' of Some v \<Rightarrow> v | None \<Rightarrow> JNull)])
          in if role (last turns) = User \<and> list_ex is_function_response (parts (last turns))
             then butlast turns @ [(last turns)\<lparr>parts := parts (last turns) @ [response]\<rparr>]
             else turns @ [\<lparr>role = User, parts = [response]\<rparr>])"
proof -
  have skipped: "\<forall>t' \<in> set (rev later). role t' = Model \<longrightarrow>
      first_match tool_call_id (parts t') = None"
    using assms(9) by (auto intro!: first_match_no_match)
  have here: "first_match tool_call_id (parts t) = Some name"
    unfolding assms(5) using assms(8,6) by (rule first_match_append)
  have "find_function_name tool_call_id (rev (earlier @ t # later)) (JStr []) =
      find_function_name tool_call_id (t # rev earlier) (JStr [])"
    using find_function_name_skip [of "JStr []" "rev later" tool_call_id "t # rev earlier"] skipped
    by simp
  also have "\<dots> = name"
    using assms(4,7) here by (simp add: Let_def)
  finally have name: "find_function_name tool_call_id (rev (earlier @ t # later)) (JStr []) = name" .
  show ?thesis
    unfolding translate_tool_turn [OF assms(1,2)] assms(3) [symmetric]
    using name by (simp add: Let_def)
qed

theorem tool_result_pairing_witness:
  "openai_message_to_antigravity args_loads no_match
      [assistant_other, tool_result, assistant_lookup, tool_result] =
    Inr [\<lparr>role = Model, parts = [FunctionCall (JStr ''c1'') (JStr ''other'') (JObj [])]\<rparr>,
         \<lparr>role = User, parts =
            [FunctionResponse (JStr ''c1'') (JStr ''other'') (JObj [(''output'', JStr ''42'')])]\<rparr>,
         \<lparr>role = Model, parts = [FunctionCall (JStr ''c1'') (JStr ''lookup'') (JObj [])]\<rparr>,
         \<lparr>role = User, parts =
            [FunctionResponse (JStr ''c1'') (JStr ''lookup'') (JObj [(''output'', JStr ''42'')])]\<rparr>]"
proof -
  let ?earlier = "[\<lparr>role = Model, parts = [FunctionCall (JStr ''c1'') (JStr ''other'') (JObj [])]\<rparr>,
         \<lparr>role = User, parts =
            [FunctionResponse (JStr ''c1'') (JStr ''other'') (JObj [(''output'', JStr ''42'')])]\<rparr>]"
  let ?t = "\<lparr>role = Model, parts = [FunctionCall (JStr ''c1'') (JStr ''lookup'') (JObj [])]\<rparr>"
  let ?kvs = "[(''role'', JStr ''tool''), (''tool_call_id'', JStr ''c1''), (''content'', JStr ''42'')]"
  have before: "openai_message_to_antigravity args_loads no_match
      [assistant_other, tool_result, assistant_lookup] = Inr (?earlier @ ?t # [])"
    by (simp add: openai_message_to_antigravity_def assistant_lookup_def assistant_other_def
        tool_result_def handle_assistant_message_def handle_tool_call_def convert_tool_call_def
        parse_arguments_def has_content_def is_space_def args_loads_def Let_def)
  have tool: "map_of ?kvs ''role'' = Some (JStr ''tool'')"
    and tool_id: "JStr ''c1'' = (case map_of ?kvs ''tool_call_id'' of Some v \<Rightarrow> v | None \<Rightarrow> JNull)"
    and turn: "role ?t = Model"
      "parts ?t = [] @ FunctionCall (JStr ''c1'') (JStr ''lookup'') (JObj []) # []"
    and match: "py_eq (JStr ''c1'') (JStr ''c1'')" "truthy (JStr ''lookup'')"
    and first: "\<forall>i' n' a'. FunctionCall i' n' a' \<in> set [] \<longrightarrow> \<not> py_eq i' (JStr ''c1'')"
    and nearest: "\<forall>t' \<in> set []. role t' = Model \<longrightarrow>
           (\<forall>i' n' a'. FunctionCall i' n' a' \<in> set (parts t') \<longrightarrow> \<not> py_eq i' (JStr ''c1''))"
    by simp_all
  from tool_result_pairing [OF before tool tool_id turn match first nearest]
  show ?thesis
    by (simp add: tool_result_def Let_def)
qed

text \<open>
  C10. \<open>turns\<close> is the translation of the conversation before a tool turn, and no
  model turn of it holds a function call with the id of the tool turn. The translation
  of the whole does not fail: it is \<open>turns\<close> with a function response added (to the
  last turn, or as a new user turn), and the response carries the id of the tool turn,
  the empty name and the content of the tool turn as its output.
\<close>

theorem unmatched_tool_result:
  assumes "openai_message_to_antigravity loads match_uri before = Inr turns"
    and "map_of kvs ''role'' = Some (JStr ''tool'')"
    and "tool_call_id = (case map_of kvs ''tool_call_id'' of Some v \<Rightarrow> v | None \<Rightarrow> JNull)"
    and "\<forall>t \<in> set turns. role t = Model \<longrightarrow>
           (\<forall>i n a. FunctionCall i n a \<in> set (parts t) \<longrightarrow> \<not> py_eq i tool_call_id)"
  shows "openai_message_to_antigravity loads match_uri (before @ [JObj kvs]) =
     Inr (let response = FunctionResponse tool_call_id (JStr [])
                (JObj [(''output'', case map_of kvs ''content'' of Some v \<Rightarrow> v | None \<Rightarrow> JNull)])
          in if turns \<noteq> [] \<and> role (last turns) = User \<and>
                list_ex is_function_response (parts (last turns))
             then butlast turns @ [(last turns)\<lparr>parts := parts (last turns) @ [response]\<rparr>]
             else turns @ [\<lparr>role = User, parts = [response]\<rparr>])"
proof -
  have "\<forall>t \<in> set (rev turns). role t = Model \<longrightarrow> first_match tool_call_id (parts t) = None"
    using assms(4) by (auto intro!: first_match_no_match)
  then have name: "find_function_name tool_call_id (rev turns) (JStr []) = JStr []"
    by (rule find_function_name_no_match)
  show ?thesis
    unfolding translate_tool_turn [OF assms(1,2)] assms(3) [symmetric]
    using name by (simp add: Let_def)
qed

theorem unmatched_tool_result_witness:
  "openai_message_to_antigravity args_loads no_match [assistant_lookup, tool_result_unknown] =
    Inr [\<lparr>role = Model, parts = [FunctionCall (JStr ''c1'') (JStr ''lookup'') (JObj [])]\<rparr>,
         \<lparr>role = User, parts =
            [FunctionResponse (JStr ''c9'') (JStr []) (JObj [(''output'', JStr ''42'')])]\<rparr>]"
proof -
  let ?kvs = "[(''role'', JStr ''tool''), (''tool_call_id'', JStr ''c9''), (''content'', JStr ''42'')]"
  have before: "openai_message_to_antigravity args_loads no_match [assistant_lookup] =
      Inr [\<lparr>role = Model, parts = [FunctionCall (JStr ''c1'') (JStr ''lookup'') (JObj [])]\<rparr>]"
    by (simp add: openai_message_to_antigravity_def assistant_lookup_def
        handle_assistant_message_def convert_tool_call_def parse_arguments_def has_content_def
        is_space_def args_loads_def Let_def)
  have tool: "map_of ?kvs ''role'' = Some (JStr ''tool'')"
    and tool_id: "JStr ''c9'' = (case map_of ?kvs ''tool_call_id'' of Some v \<Rightarrow> v | None \<Rightarrow> JNull)"
    and unmatched: "\<forall>t \<in> set [\<lparr>role = Model,
            parts = [FunctionCall (JStr ''c1'') (JStr ''lookup'') (JObj [])]\<rparr>].
          role t = Model \<longrightarrow>
           (\<forall>i n a. FunctionCall i n a \<in> set (parts t) \<longrightarrow> \<not> py_eq i (JStr ''c9''))"
    by simp_all
  from unmatched_tool_result [OF before tool tool_id unmatched]
  show ?thesis
    by (simp add: tool_result_unknown_def Let_def)
qed

end
